theory Spec2Isabelle
  imports Main "HOL-Library.Multiset"
begin

section \<open>JavaScript values\<close>

text \<open>
  The policy service moves untyped data around: the resource description and the token
  claims are \<^verbatim>\<open>Record<string, unknown>\<close>, the decision is whatever
  \<^verbatim>\<open>res.json()\<close> parsed. They are modelled as trees of JavaScript values. An object
  is the list of its own enumerable string-keyed properties in enumeration order (for
  names that are not array indices this is insertion order); its names are distinct.
  Numbers are restricted to integers; strings are byte strings.
\<close>

datatype jsval =
    JUndefined
  | JNull
  | JBool bool
  | JNum int
  | JStr string
  | JArr "jsval list"
  | JObj "(string \<times> jsval) list"

type_synonym jsobject = "(string \<times> jsval) list"

text \<open>ToBoolean: what \<^verbatim>\<open>if (v)\<close>, \<^verbatim>\<open>v || d\<close> and \<^verbatim>\<open>!v\<close> test.\<close>

fun truthy :: "jsval \<Rightarrow> bool" where
  "truthy JUndefined = False"
| "truthy JNull = False"
| "truthy (JBool b) = b"
| "truthy (JNum n) = (n \<noteq> 0)"
| "truthy (JStr s) = (s \<noteq> [])"
| "truthy (JArr xs) = True"
| "truthy (JObj fs) = True"

fun nullish :: "jsval \<Rightarrow> bool" where
  "nullish JUndefined = True"
| "nullish JNull = True"
| "nullish v = False"

text \<open>
  A value thrown by \<^verbatim>\<open>throw\<close> or by a rejected promise: an \<^verbatim>\<open>Error\<close> object with its
  message, or any other value (the \<^verbatim>\<open>instanceof Error\<close> tests of the source tell them
  apart).
\<close>

datatype thrown = ErrorObj string | NonError jsval

text \<open>
  Reading a property \<^verbatim>\<open>v.k\<close>, for the names the source reads (\<^verbatim>\<open>result\<close>, \<^verbatim>\<open>allow\<close>,
  \<^verbatim>\<open>ip\<close>, \<^verbatim>\<open>email\<close>, ...), none of which is a built-in member of a primitive or of an
  array: a missing property reads as \<^verbatim>\<open>undefined\<close>, and reading from \<^verbatim>\<open>null\<close> or
  \<^verbatim>\<open>undefined\<close> throws a TypeError (the message is the engine's, here V8's).
\<close>

fun member :: "jsval \<Rightarrow> string \<Rightarrow> jsval" where
  "member (JObj fs) k = (case map_of fs k of None \<Rightarrow> JUndefined | Some v \<Rightarrow> v)"
| "member v k = JUndefined"

fun typeName :: "jsval \<Rightarrow> string" where
  "typeName JNull = ''null''"
| "typeName v = ''undefined''"

definition nullReadError :: "jsval \<Rightarrow> string \<Rightarrow> thrown" where
  "nullReadError v k =
     ErrorObj (''Cannot read properties of '' @ typeName v @ '' (reading '' @ [CHR 0x27] @ k @ [CHR 0x27] @ '')'')"

definition getProp :: "jsval \<Rightarrow> string \<Rightarrow> thrown + jsval" where
  "getProp v k = (if nullish v then Inl (nullReadError v k) else Inr (member v k))"

text \<open>Optional chaining \<^verbatim>\<open>v?.k\<close>.\<close>

definition optProp :: "jsval \<Rightarrow> string \<Rightarrow> jsval" where
  "optProp v k = (if nullish v then JUndefined else member v k)"

text \<open>Nullish coalescing \<^verbatim>\<open>v ?? d\<close>.\<close>

definition coalesce :: "jsval \<Rightarrow> jsval \<Rightarrow> jsval" where
  "coalesce v d = (if nullish v then d else v)"

section \<open>JSON.stringify\<close>

text \<open>Decimal digits of a number, as template literals and JSON.stringify print integers.\<close>

definition digitChar :: "nat \<Rightarrow> char" where
  "digitChar d = char_of (48 + d)"

fun natToString :: "nat \<Rightarrow> string" where
  "natToString n = (if n < 10 then [digitChar n] else natToString (n div 10) @ [digitChar (n mod 10)])"

declare natToString.simps [simp del]

definition numberToString :: "int \<Rightarrow> string" where
  "numberToString n = (if n < 0 then CHR ''-'' # natToString (nat (- n)) else natToString (nat n))"

text \<open>
  QuoteJSONString: the two-character escapes, \<^verbatim>\<open>\u00xx\<close> for the other control
  characters, every other character as it is.
\<close>

definition backslash :: char where
  "backslash = CHR 0x5C"

definition dquote :: char where
  "dquote = CHR 0x22"

definition hexChar :: "nat \<Rightarrow> char" where
  "hexChar d = (if d < 10 then char_of (48 + d) else char_of (87 + d))"

definition quoteChar :: "char \<Rightarrow> string" where
  "quoteChar c =
     (if c = CHR 0x08 then [backslash, CHR ''b'']
      else if c = CHR 0x09 then [backslash, CHR ''t'']
      else if c = CHR 0x0A then [backslash, CHR ''n'']
      else if c = CHR 0x0C then [backslash, CHR ''f'']
      else if c = CHR 0x0D then [backslash, CHR ''r'']
      else if c = dquote then [backslash, dquote]
      else if c = backslash then [backslash, backslash]
      else if (of_char c :: nat) < 32
        then [backslash, CHR ''u'', CHR ''0'', CHR ''0'',
              hexChar ((of_char c :: nat) div 16), hexChar ((of_char c :: nat) mod 16)]
      else [c])"

definition quoteJSONString :: "string \<Rightarrow> string" where
  "quoteJSONString s = dquote # concat (map quoteChar s) @ [dquote]"

fun join :: "string \<Rightarrow> string list \<Rightarrow> string" where
  "join sep [] = []"
| "join sep [x] = x"
| "join sep (x # y # ys) = x @ sep @ join sep (y # ys)"

text \<open>
  SerializeJSONProperty gives no text for \<^verbatim>\<open>undefined\<close>: a property with that value is
  left out of an object, and an array prints \<^verbatim>\<open>null\<close> in its place.
\<close>

fun serializeProperty :: "jsval \<Rightarrow> string option"
  and serializeElements :: "jsval list \<Rightarrow> string list"
  and serializeMembers :: "(string \<times> jsval) list \<Rightarrow> string list"
where
  "serializeProperty JUndefined = None"
| "serializeProperty JNull = Some ''null''"
| "serializeProperty (JBool b) = Some (if b then ''true'' else ''false'')"
| "serializeProperty (JNum n) = Some (numberToString n)"
| "serializeProperty (JStr s) = Some (quoteJSONString s)"
| "serializeProperty (JArr xs) = Some (''['' @ join '','' (serializeElements xs) @ '']'')"
| "serializeProperty (JObj fs) = Some (''{'' @ join '','' (serializeMembers fs) @ ''}'')"
| "serializeElements [] = []"
| "serializeElements (x # xs) =
     (case serializeProperty x of None \<Rightarrow> ''null'' | Some s \<Rightarrow> s) # serializeElements xs"
| "serializeMembers [] = []"
| "serializeMembers ((k, v) # fs) =
     (case serializeProperty v of
        None \<Rightarrow> serializeMembers fs
      | Some s \<Rightarrow> (quoteJSONString k @ '':'' @ s) # serializeMembers fs)"

text \<open>\<^verbatim>\<open>JSON.stringify\<close> of an object literal.\<close>

definition stringifyObject :: "jsobject \<Rightarrow> string" where
  "stringifyObject fs = ''{'' @ join '','' (serializeMembers fs) @ ''}''"

section \<open>The policy client: data\<close>

text \<open>The interfaces of \<^verbatim>\<open>OpaService.ts\<close>. A decision is the parsed response, untyped.\<close>

record OpaEnv =
  now :: string
  ip :: jsval

record OpaInput =
  uid :: string
  tokenClaims :: jsobject
  action :: string
  resource :: jsobject
  env :: OpaEnv

type_synonym OpaDecision = jsval

record OpaBatchItem =
  itemAction :: string
  itemResource :: jsobject

record OpaBatchResult =
  index :: nat
  allow :: jsval
  decision :: OpaDecision

record CacheEntry =
  entryDecision :: OpaDecision
  expiry :: int

record OpaService =
  baseUrl :: string
  cache :: "string \<rightharpoonup> CacheEntry"
  cacheEnabled :: bool
  cacheTtlMs :: int

text \<open>
  The constructor: \<^verbatim>\<open>options.cacheEnabled ?? true\<close>, \<^verbatim>\<open>options.cacheTtlMs ?? 30000\<close>.
  The default of \<^verbatim>\<open>baseUrl\<close> is read from the process environment and is a parameter.
\<close>

definition newOpaService :: "string \<Rightarrow> bool option \<Rightarrow> int option \<Rightarrow> OpaService" where
  "newOpaService url optEnabled optTtl =
     \<lparr> baseUrl = url,
       cache = Map.empty,
       cacheEnabled = (case optEnabled of None \<Rightarrow> True | Some b \<Rightarrow> b),
       cacheTtlMs = (case optTtl of None \<Rightarrow> 30000 | Some t \<Rightarrow> t) \<rparr>"

section \<open>The host: clock, network, identity provider\<close>

text \<open>
  What the code calls and does not own. A response carries its status and what
  \<^verbatim>\<open>res.text()\<close> and \<^verbatim>\<open>res.json()\<close> settle to; \<^verbatim>\<open>res.ok\<close> is a status from 200 to 299.
\<close>

record HttpResponse =
  status :: nat
  bodyText :: "thrown + string"
  bodyJson :: "thrown + jsval"

definition ok :: "HttpResponse \<Rightarrow> bool" where
  "ok res = (200 \<le> status res \<and> status res \<le> 299)"

datatype FetchOutcome = Rejected thrown | Resolved HttpResponse

text \<open>
  A decoded identity token: its \<^verbatim>\<open>uid\<close> and all its own properties, in order.
\<close>

record DecodedIdToken =
  tokenUid :: string
  tokenProps :: jsobject

text \<open>
  The host answers the n-th reading of the clock (in milliseconds), prints an instant as
  ISO-8601 text, settles the n-th call of \<^verbatim>\<open>fetch\<close>, and verifies an identity token.
\<close>

record Host =
  dateNow :: "nat \<Rightarrow> int"
  toISOString :: "int \<Rightarrow> string"
  fetchOutcome :: "nat \<Rightarrow> FetchOutcome"
  verifyIdToken :: "string \<Rightarrow> thrown + DecodedIdToken"

text \<open>
  The state of the process: the singleton service, how often the clock was read, and the
  calls of \<^verbatim>\<open>fetch\<close> made so far (url and body).
\<close>

record Runtime =
  opaService :: OpaService
  clockReads :: nat
  fetchCalls :: "(string \<times> string) list"

definition readClock :: "Host \<Rightarrow> Runtime \<Rightarrow> int \<times> Runtime" where
  "readClock h w = (dateNow h (clockReads w), w\<lparr>clockReads := Suc (clockReads w)\<rparr>)"

section \<open>OpaService\<close>

definition inputToJson :: "OpaInput \<Rightarrow> jsval" where
  "inputToJson input =
     JObj [(''uid'', JStr (uid input)),
           (''tokenClaims'', JObj (tokenClaims input)),
           (''action'', JStr (action input)),
           (''resource'', JObj (resource input)),
           (''env'', JObj [(''now'', JStr (now (env input))), (''ip'', ip (env input))])]"

definition getCacheKey :: "OpaInput \<Rightarrow> string" where
  "getCacheKey input =
     stringifyObject
       [(''uid'', JStr (uid input)),
        (''action'', JStr (action input)),
        (''resource'', JObj (resource input))]"

text \<open>
  \<^verbatim>\<open>getCachedDecision\<close> returns the decision or \<^verbatim>\<open>null\<close>. The clock is read only when an
  entry was found (\<^verbatim>\<open>cached && cached.expiry > Date.now()\<close>).
\<close>

definition getCachedDecision :: "Host \<Rightarrow> string \<Rightarrow> Runtime \<Rightarrow> jsval \<times> Runtime" where
  "getCachedDecision h key w =
     (if \<not> cacheEnabled (opaService w) then (JNull, w)
      else case cache (opaService w) key of
        None \<Rightarrow> (JNull, w)
      | Some cached \<Rightarrow>
          (let (t, w1) = readClock h w in
           if expiry cached > t then (entryDecision cached, w1)
           else (JNull, w1\<lparr>opaService := (opaService w1)\<lparr>cache := (cache (opaService w1))(key := None)\<rparr>\<rparr>)))"

definition cacheDecision :: "Host \<Rightarrow> string \<Rightarrow> OpaDecision \<Rightarrow> Runtime \<Rightarrow> Runtime" where
  "cacheDecision h key d w =
     (if \<not> cacheEnabled (opaService w) then w
      else let (t, w1) = readClock h w in
        w1\<lparr>opaService := (opaService w1)\<lparr>cache :=
          (cache (opaService w1))(key \<mapsto> \<lparr>entryDecision = d, expiry = t + cacheTtlMs (opaService w1)\<rparr>)\<rparr>\<rparr>)"

definition clearCache :: "Runtime \<Rightarrow> Runtime" where
  "clearCache w = w\<lparr>opaService := (opaService w)\<lparr>cache := Map.empty\<rparr>\<rparr>"

text \<open>
  \<^verbatim>\<open>query\<close> is asynchronous. It runs without interruption up to \<^verbatim>\<open>await fetch(...)\<close>: either
  it returns the cached decision, or it has made a call and waits for it.
\<close>

datatype Started = Hit OpaDecision | Pending nat string

definition noDecision :: OpaDecision where
  "noDecision = JObj [(''allow'', JBool False), (''reason'', JStr ''no decision returned'')]"

definition queryStart :: "Host \<Rightarrow> OpaInput \<Rightarrow> Runtime \<Rightarrow> Started \<times> Runtime" where
  "queryStart h input w =
     (let cacheKey = getCacheKey input;
          (cached, w1) = getCachedDecision h cacheKey w
      in if truthy cached then (Hit cached, w1)
         else let url = baseUrl (opaService w1) @ ''/v1/data/authz/decision'';
                  body = stringifyObject [(''input'', inputToJson input)]
              in (Pending (length (fetchCalls w1)) cacheKey,
                  w1\<lparr>fetchCalls := fetchCalls w1 @ [(url, body)]\<rparr>))"

text \<open>
  What \<^verbatim>\<open>query\<close> makes of a settled call, before it touches the cache: the status check,
  the parsed body, and \<^verbatim>\<open>json.result || { allow: false, reason: 'no decision returned' }\<close>.
  \<open>Inl e\<close> is \<^verbatim>\<open>query\<close> throwing \<open>e\<close>.
\<close>

definition readDecision :: "FetchOutcome \<Rightarrow> thrown + OpaDecision" where
  "readDecision outcome =
     (case outcome of
        Rejected e \<Rightarrow> Inl e
      | Resolved res \<Rightarrow>
          if \<not> ok res then
            (case bodyText res of
               Inl e \<Rightarrow> Inl e
             | Inr t \<Rightarrow> Inl (ErrorObj (''OPA call failed '' @ natToString (status res) @ '': '' @ t)))
          else
            (case bodyJson res of
               Inl e \<Rightarrow> Inl e
             | Inr json \<Rightarrow>
                 (case getProp json ''result'' of
                    Inl e \<Rightarrow> Inl e
                  | Inr r \<Rightarrow> Inr (if truthy r then r else noDecision))))"

text \<open>
  The rest of \<^verbatim>\<open>query\<close>, once the call has settled. Nothing of the service is read or
  written between the two awaits (\<^verbatim>\<open>fetch\<close>, then the body), so they are one step; the
  decision is stored and returned.
\<close>

definition queryFinish :: "Host \<Rightarrow> string \<Rightarrow> FetchOutcome \<Rightarrow> Runtime \<Rightarrow> (thrown + OpaDecision) \<times> Runtime" where
  "queryFinish h cacheKey outcome w =
     (case readDecision outcome of
        Inl e \<Rightarrow> (Inl e, w)
      | Inr d \<Rightarrow> (Inr d, cacheDecision h cacheKey d w))"

text \<open>One \<^verbatim>\<open>await this.query(input)\<close> with nothing else running in between.\<close>

definition query :: "Host \<Rightarrow> OpaInput \<Rightarrow> Runtime \<Rightarrow> (thrown + OpaDecision) \<times> Runtime" where
  "query h input w =
     (case queryStart h input w of
        (Hit d, w1) \<Rightarrow> (Inr d, w1)
      | (Pending n cacheKey, w1) \<Rightarrow> queryFinish h cacheKey (fetchOutcome h n) w1)"

subsection \<open>queryBatch\<close>

text \<open>The input \<^verbatim>\<open>queryBatch\<close> builds for an item; \<^verbatim>\<open>ip ?? null\<close> for the address.\<close>

definition batchInput :: "string \<Rightarrow> jsobject \<Rightarrow> string \<Rightarrow> jsval \<Rightarrow> OpaBatchItem \<Rightarrow> OpaInput" where
  "batchInput u claims nowIso ipArg item =
     \<lparr> uid = u, tokenClaims = claims, action = itemAction item, resource = itemResource item,
       env = \<lparr> now = nowIso, ip = coalesce ipArg JNull \<rparr> \<rparr>"

text \<open>
  The first loop of \<^verbatim>\<open>queryBatch\<close>: item \<open>i\<close> is looked up in the cache and goes to
  \<open>results\<close> on a hit, to \<open>uncachedItems\<close> otherwise. \<^verbatim>\<open>cached.allow\<close> is read from a truthy
  value, so the read does not throw.
\<close>

fun checkCache ::
  "Host \<Rightarrow> string \<Rightarrow> jsobject \<Rightarrow> string \<Rightarrow> jsval \<Rightarrow> OpaBatchItem list \<Rightarrow> nat \<Rightarrow>
   OpaBatchResult list \<Rightarrow> (nat \<times> OpaInput) list \<Rightarrow> Runtime \<Rightarrow>
   OpaBatchResult list \<times> (nat \<times> OpaInput) list \<times> Runtime"
where
  "checkCache h u claims nowIso ipArg [] i results uncachedItems w = (results, uncachedItems, w)"
| "checkCache h u claims nowIso ipArg (item # items) i results uncachedItems w =
     (let input = batchInput u claims nowIso ipArg item;
          cacheKey = getCacheKey input;
          (cached, w1) = getCachedDecision h cacheKey w
      in if truthy cached
         then checkCache h u claims nowIso ipArg items (Suc i)
                (results @ [\<lparr> index = i, allow = member cached ''allow'', decision = cached \<rparr>])
                uncachedItems w1
         else checkCache h u claims nowIso ipArg items (Suc i)
                results (uncachedItems @ [(i, input)]) w1)"

text \<open>
  \<^verbatim>\<open>uncachedItems.map(async ...)\<close> calls the callback for every item in turn, and each
  callback runs up to its first await, inside \<^verbatim>\<open>this.query\<close>: all the calls are made before
  any of them settles.
\<close>

fun startAll :: "Host \<Rightarrow> (nat \<times> OpaInput) list \<Rightarrow> Runtime \<Rightarrow> (nat \<times> Started) list \<times> Runtime" where
  "startAll h [] w = ([], w)"
| "startAll h ((i, input) # rest) w =
     (let (st, w1) = queryStart h input w;
          (sts, w2) = startAll h rest w1
      in ((i, st) # sts, w2))"

text \<open>The callback's \<^verbatim>\<open>try\<close> and \<^verbatim>\<open>catch\<close>, applied to what \<^verbatim>\<open>await this.query(input)\<close> gave.\<close>

definition errorResult :: "nat \<Rightarrow> thrown \<Rightarrow> OpaBatchResult" where
  "errorResult i e =
     \<lparr> index = i, allow = JBool False,
       decision = JObj [(''allow'', JBool False),
                        (''reason'', JStr (case e of ErrorObj m \<Rightarrow> m | NonError v \<Rightarrow> ''OPA query failed''))] \<rparr>"

definition itemResult :: "nat \<Rightarrow> thrown + OpaDecision \<Rightarrow> OpaBatchResult" where
  "itemResult i r =
     (case r of
        Inl e \<Rightarrow> errorResult i e
      | Inr d \<Rightarrow>
          (case getProp d ''allow'' of
             Inl e \<Rightarrow> errorResult i e
           | Inr a \<Rightarrow> \<lparr> index = i, allow = a, decision = d \<rparr>))"

text \<open>
  The calls settle in any order: \<open>order\<close> lists positions of \<open>started\<close> in the order in
  which their callbacks resume. A callback resumes once; a position that is out of range
  or already settled is skipped. \<open>slots\<close> holds the value each promise resolved to.
\<close>

definition settle ::
  "Host \<Rightarrow> (nat \<times> Started) list \<Rightarrow> nat \<Rightarrow> (nat \<rightharpoonup> OpaBatchResult) \<times> Runtime \<Rightarrow>
   (nat \<rightharpoonup> OpaBatchResult) \<times> Runtime"
where
  "settle h started p sw =
     (let (slots, w) = sw in
      if p < length started \<and> slots p = None then
        (case started ! p of
           (i, Hit d) \<Rightarrow> (slots(p \<mapsto> itemResult i (Inr d)), w)
         | (i, Pending n cacheKey) \<Rightarrow>
             (let (r, w1) = queryFinish h cacheKey (fetchOutcome h n) w
              in (slots(p \<mapsto> itemResult i r), w1)))
      else (slots, w))"

text \<open>
  \<^verbatim>\<open>Promise.all\<close> resolves, to the values in the order of the promises, once every one
  has resolved; \<open>None\<close> when some call never settles.
\<close>

definition promiseAll :: "nat \<Rightarrow> (nat \<rightharpoonup> OpaBatchResult) \<Rightarrow> OpaBatchResult list option" where
  "promiseAll k slots = those (map slots [0..<k])"

text \<open>
  \<^verbatim>\<open>results.sort((a, b) => a.index - b.index)\<close>: a stable sort by index.
\<close>

definition sortByIndex :: "OpaBatchResult list \<Rightarrow> OpaBatchResult list" where
  "sortByIndex rs = sort_key index rs"

definition queryBatch ::
  "Host \<Rightarrow> string \<Rightarrow> jsobject \<Rightarrow> OpaBatchItem list \<Rightarrow> jsval \<Rightarrow> nat list \<Rightarrow> Runtime \<Rightarrow>
   OpaBatchResult list option \<times> Runtime"
where
  "queryBatch h u claims items ipArg order w =
     (let (t, w0) = readClock h w;
          nowIso = toISOString h t;
          (results, uncachedItems, w1) = checkCache h u claims nowIso ipArg items 0 [] [] w0
      in if length uncachedItems = 0 then (Some (sortByIndex results), w1)
         else
           let (started, w2) = startAll h uncachedItems w1;
               (slots, w3) = fold (settle h started) order (Map.empty, w2)
           in (case promiseAll (length started) slots of
                 None \<Rightarrow> (None, w3)
               | Some opaResults \<Rightarrow> (Some (sortByIndex (results @ opaResults)), w3)))"

text \<open>\<^verbatim>\<open>isAllowed\<close>: \<^verbatim>\<open>!!(decision && decision.allow === true)\<close>.\<close>

definition isAllowed ::
  "Host \<Rightarrow> string \<Rightarrow> jsobject \<Rightarrow> string \<Rightarrow> jsobject \<Rightarrow> jsval \<Rightarrow> Runtime \<Rightarrow>
   (thrown + bool \<times> OpaDecision) \<times> Runtime"
where
  "isAllowed h u claims act res ipArg w =
     (let (t, w0) = readClock h w;
          input = \<lparr> uid = u, tokenClaims = claims, action = act, resource = res,
                    env = \<lparr> now = toISOString h t, ip = coalesce ipArg JNull \<rparr> \<rparr>
      in case query h input w0 of
           (Inl e, w1) \<Rightarrow> (Inl e, w1)
         | (Inr d, w1) \<Rightarrow> (Inr (truthy d \<and> member d ''allow'' = JBool True, d), w1))"

section \<open>The entry points: authorize.ts\<close>

text \<open>
  \<^verbatim>\<open>AuthResult\<close> and \<^verbatim>\<open>BatchAuthResult extends AuthResult\<close>; the fields carry the prefix
  \<open>auth\<close> to keep them apart from those of \<^verbatim>\<open>OpaBatchResult\<close>. \<^verbatim>\<open>decision\<close> is a string or a
  decision, \<^verbatim>\<open>uid\<close> a string or \<^verbatim>\<open>null\<close>. \<^verbatim>\<open>allow\<close> holds a boolean in \<^verbatim>\<open>authorize\<close> and
  whatever \<^verbatim>\<open>result.allow\<close> is in \<^verbatim>\<open>authorizeBatch\<close>.
\<close>

record AuthResult =
  authAllow :: jsval
  authDecision :: jsval
  authUid :: "string option"
  authClaims :: jsobject

record BatchAuthResult = AuthResult +
  authIndex :: nat

record BatchAuthRequest =
  reqAction :: string
  reqResource :: jsobject
  reqContext :: "jsobject option"

text \<open>Writing a property of an object literal: in place when the name exists, last otherwise.\<close>

fun setProp :: "jsobject \<Rightarrow> string \<Rightarrow> jsval \<Rightarrow> jsobject" where
  "setProp [] k v = [(k, v)]"
| "setProp ((k', v') # fs) k v = (if k' = k then (k, v) # fs else (k', v') # setProp fs k v)"

definition spread :: "jsobject \<Rightarrow> jsobject \<Rightarrow> jsobject" where
  "spread target src = fold (\<lambda>(k, v) obj. setProp obj k v) src target"

text \<open>
  \<^verbatim>\<open>verifyToken\<close>: whatever \<^verbatim>\<open>getAdminAuth\<close> or \<^verbatim>\<open>verifyIdToken\<close> throws is replaced by
  \<^verbatim>\<open>new Error('Invalid ID token')\<close>.
\<close>

definition verifyToken :: "Host \<Rightarrow> string \<Rightarrow> thrown + string \<times> jsobject" where
  "verifyToken h idToken =
     (case verifyIdToken h idToken of
        Inl e \<Rightarrow> Inl (ErrorObj ''Invalid ID token'')
      | Inr decodedToken \<Rightarrow>
          (let tok = JObj (tokenProps decodedToken) in
           Inr (tokenUid decodedToken,
                spread [(''email'', member tok ''email''),
                        (''emailVerified'', member tok ''email_verified''),
                        (''name'', member tok ''name''),
                        (''picture'', member tok ''picture'')]
                       (tokenProps decodedToken))))"

text \<open>\<^verbatim>\<open>!idToken\<close>: the token is \<^verbatim>\<open>null\<close> or the empty string.\<close>

definition noToken :: "string option \<Rightarrow> bool" where
  "noToken idToken = (case idToken of None \<Rightarrow> True | Some t \<Rightarrow> t = [])"

text \<open>\<^verbatim>\<open>error instanceof Error ? error.message : 'authorization-error'\<close>.\<close>

definition errorMessage :: "thrown \<Rightarrow> string" where
  "errorMessage e = (case e of ErrorObj m \<Rightarrow> m | NonError v \<Rightarrow> ''authorization-error'')"

definition contextIp :: "jsobject option \<Rightarrow> jsval" where
  "contextIp context = (case context of None \<Rightarrow> JUndefined | Some c \<Rightarrow> member (JObj c) ''ip'')"

text \<open>The body of the \<^verbatim>\<open>try\<close> block of \<^verbatim>\<open>authorize\<close>.\<close>

definition authorizeTry ::
  "Host \<Rightarrow> string \<Rightarrow> string \<Rightarrow> jsobject \<Rightarrow> jsobject option \<Rightarrow> Runtime \<Rightarrow> (thrown + AuthResult) \<times> Runtime"
where
  "authorizeTry h idToken act res context w =
     (case verifyToken h idToken of
        Inl e \<Rightarrow> (Inl e, w)
      | Inr (u, claims) \<Rightarrow>
          (case isAllowed h u claims act res (contextIp context) w of
             (Inl e, w1) \<Rightarrow> (Inl e, w1)
           | (Inr (a, d), w1) \<Rightarrow>
               (Inr \<lparr> authAllow = JBool a, authDecision = d, authUid = Some u, authClaims = claims \<rparr>, w1)))"

text \<open>
  \<^verbatim>\<open>authorize\<close>. A result \<open>Inl e\<close> would be an exception leaving the function.
\<close>

definition authorize ::
  "Host \<Rightarrow> string option \<Rightarrow> string \<Rightarrow> jsobject \<Rightarrow> jsobject option \<Rightarrow> Runtime \<Rightarrow> (thrown + AuthResult) \<times> Runtime"
where
  "authorize h idToken act res context w =
     (if noToken idToken then
        (Inr \<lparr> authAllow = JBool False, authDecision = JStr ''no-token'', authUid = None, authClaims = [] \<rparr>, w)
      else
        (case authorizeTry h (the idToken) act res context w of
           (Inr r, w1) \<Rightarrow> (Inr r, w1)
         | (Inl e, w1) \<Rightarrow>
             (Inr \<lparr> authAllow = JBool False, authDecision = JStr (errorMessage e),
                    authUid = None, authClaims = [] \<rparr>, w1)))"

text \<open>
  \<^verbatim>\<open>authorizeBatch\<close>. \<^verbatim>\<open>requests.map((_, index) => ...)\<close> builds one record for each position;
  \<^verbatim>\<open>requests[0]?.context?.ip\<close> is \<^verbatim>\<open>undefined\<close> for an empty list. The result is \<open>None\<close> when
  the batch query never resolves.
\<close>

definition denyAll :: "jsval \<Rightarrow> BatchAuthRequest list \<Rightarrow> BatchAuthResult list" where
  "denyAll d requests =
     map (\<lambda>i. \<lparr> authAllow = JBool False, authDecision = d, authUid = None, authClaims = [],
                authIndex = i \<rparr>) [0..<length requests]"

definition firstContextIp :: "BatchAuthRequest list \<Rightarrow> jsval" where
  "firstContextIp requests =
     (case requests of [] \<Rightarrow> JUndefined | req # rest \<Rightarrow> contextIp (reqContext req))"

definition authorizeBatchTry ::
  "Host \<Rightarrow> string \<Rightarrow> BatchAuthRequest list \<Rightarrow> nat list \<Rightarrow> Runtime \<Rightarrow>
   (thrown + BatchAuthResult list) option \<times> Runtime"
where
  "authorizeBatchTry h idToken requests order w =
     (case verifyToken h idToken of
        Inl e \<Rightarrow> (Some (Inl e), w)
      | Inr (u, claims) \<Rightarrow>
          (let items = map (\<lambda>req. \<lparr> itemAction = reqAction req, itemResource = reqResource req \<rparr>) requests
           in case queryBatch h u claims items (firstContextIp requests) order w of
                (None, w1) \<Rightarrow> (None, w1)
              | (Some opaResults, w1) \<Rightarrow>
                  (Some (Inr (map (\<lambda>result. \<lparr> authAllow = allow result, authDecision = decision result,
                                               authUid = Some u, authClaims = claims,
                                               authIndex = index result \<rparr>) opaResults)), w1)))"

definition authorizeBatch ::
  "Host \<Rightarrow> string option \<Rightarrow> BatchAuthRequest list \<Rightarrow> nat list \<Rightarrow> Runtime \<Rightarrow>
   (thrown + BatchAuthResult list) option \<times> Runtime"
where
  "authorizeBatch h idToken requests order w =
     (if noToken idToken then (Some (Inr (denyAll (JStr ''no-token'') requests)), w)
      else
        (case authorizeBatchTry h (the idToken) requests order w of
           (None, w1) \<Rightarrow> (None, w1)
         | (Some (Inr rs), w1) \<Rightarrow> (Some (Inr rs), w1)
         | (Some (Inl e), w1) \<Rightarrow> (Some (Inr (denyAll (JStr (errorMessage e)) requests)), w1)))"



section \<open>Auxiliary predicates\<close>

text \<open>
  A lookup of \<open>key\<close> cannot be a hit, whatever the clock reads: the cache is disabled,
  or it holds nothing for the key, or what it holds is not truthy.
\<close>

definition lookupMisses :: "Runtime \<Rightarrow> string \<Rightarrow> bool" where
  "lookupMisses w key =
     (\<not> cacheEnabled (opaService w) \<or>
      (case cache (opaService w) key of None \<Rightarrow> True | Some e \<Rightarrow> \<not> truthy (entryDecision e)))"

text \<open>
  What the promise at position \<open>p\<close> of \<open>started\<close> resolves to: the callback's result for the
  decision at hand, or for what \<^verbatim>\<open>query\<close> makes of the outcome of its call.
\<close>

definition resultAt :: "Host \<Rightarrow> (nat \<times> Started) list \<Rightarrow> nat \<Rightarrow> OpaBatchResult" where
  "resultAt h started p =
     (case started ! p of
        (i, Hit d) \<Rightarrow> itemResult i (Inr d)
      | (i, Pending n cacheKey) \<Rightarrow> itemResult i (readDecision (fetchOutcome h n)))"

text \<open>The request \<^verbatim>\<open>query\<close> sends for an input: the url and the body.\<close>

definition requestOf :: "Runtime \<Rightarrow> OpaInput \<Rightarrow> string \<times> string" where
  "requestOf w input =
     (baseUrl (opaService w) @ ''/v1/data/authz/decision'',
      stringifyObject [(''input'', inputToJson input)])"




definition delimited :: "string \<Rightarrow> bool" where
  "delimited r = (case r of [] \<Rightarrow> True | c # cs \<Rightarrow> c = CHR '','' \<or> c = CHR '']'' \<or> c = CHR ''}'')"

section \<open>Concrete runs\<close>

text \<open>Hosts, states and inputs on which the theorems below are evaluated.\<close>

definition hostA :: Host where
  "hostA = \<lparr> dateNow = (\<lambda>n. 1000 + int n), toISOString = (\<lambda>t. ''2024-01-01T00:00:00.000Z''),
             fetchOutcome = (\<lambda>n. Rejected (ErrorObj ''fetch failed'')),
             verifyIdToken = (\<lambda>t. Inl (ErrorObj ''auth/argument-error'')) \<rparr>"

definition allowOk :: OpaDecision where
  "allowOk = JObj [(''allow'', JBool True), (''reason'', JStr ''ok'')]"

definition runtimeStale :: Runtime where
  "runtimeStale =
     \<lparr> opaService = \<lparr> baseUrl = ''http://localhost:8181'',
                      cache = [''k'' \<mapsto> \<lparr> entryDecision = allowOk, expiry = 1000 \<rparr>],
                      cacheEnabled = True, cacheTtlMs = 30000 \<rparr>,
       clockReads = 0, fetchCalls = [] \<rparr>"

definition inputTypeId :: OpaInput where
  "inputTypeId =
     \<lparr> uid = ''u1'', tokenClaims = [], action = ''read_post'',
       resource = [(''type'', JStr ''post''), (''id'', JStr ''1'')],
       env = \<lparr> now = ''2024-01-01T00:00:00.000Z'', ip = JNull \<rparr> \<rparr>"


definition inputOtherEnv :: OpaInput where
  "inputOtherEnv =
     \<lparr> uid = ''u1'', tokenClaims = [(''role'', JStr ''admin'')], action = ''read_post'',
       resource = [(''type'', JStr ''post''), (''id'', JStr ''1'')],
       env = \<lparr> now = ''2024-06-30T12:00:00.000Z'', ip = JStr ''10.0.0.7'' \<rparr> \<rparr>"

definition requestsAB :: "BatchAuthRequest list" where
  "requestsAB =
     [\<lparr> reqAction = ''vote_post'', reqResource = [(''id'', JStr ''a'')], reqContext = None \<rparr>,
      \<lparr> reqAction = ''vote_post'', reqResource = [(''id'', JStr ''b'')], reqContext = None \<rparr>]"

definition okResponse :: "jsval \<Rightarrow> FetchOutcome" where
  "okResponse d = Resolved \<lparr> status = 200, bodyText = Inr [], bodyJson = Inr (JObj [(''result'', d)]) \<rparr>"

definition hostB :: Host where
  "hostB = \<lparr> dateNow = (\<lambda>n. 1000 + int n), toISOString = (\<lambda>t. ''2024-01-01T00:00:00.000Z''),
             fetchOutcome = (\<lambda>n. if n = 1 then Rejected (ErrorObj ''fetch failed'') else okResponse allowOk),
             verifyIdToken = (\<lambda>t. Inr \<lparr> tokenUid = ''u2'', tokenProps = [(''uid'', JStr ''u2'')] \<rparr>) \<rparr>"

definition runtime0 :: Runtime where
  "runtime0 = \<lparr> opaService = newOpaService ''http://localhost:8181'' None None,
                clockReads = 0, fetchCalls = [] \<rparr>"

definition requestsABC :: "BatchAuthRequest list" where
  "requestsABC =
     [\<lparr> reqAction = ''vote_post'', reqResource = [(''id'', JStr ''a'')], reqContext = None \<rparr>,
      \<lparr> reqAction = ''vote_post'', reqResource = [(''id'', JStr ''b'')], reqContext = None \<rparr>,
      \<lparr> reqAction = ''vote_post'', reqResource = [(''id'', JStr ''c'')], reqContext = None \<rparr>]"

definition claimsU2 :: jsobject where
  "claimsU2 = [(''email'', JUndefined), (''emailVerified'', JUndefined), (''name'', JUndefined),
               (''picture'', JUndefined), (''uid'', JStr ''u2'')]"


text \<open>A host whose \<open>k\<close>-th call of \<^verbatim>\<open>fetch\<close> is rejected and whose other calls are allowed.\<close>

definition hostFail :: "nat \<Rightarrow> Host" where
  "hostFail k = \<lparr> dateNow = (\<lambda>n. 1000 + int n), toISOString = (\<lambda>t. ''2024-01-01T00:00:00.000Z''),
             fetchOutcome = (\<lambda>n. if n = k then Rejected (ErrorObj ''fetch failed'') else okResponse allowOk),
             verifyIdToken = (\<lambda>t. Inr \<lparr> tokenUid = ''u2'', tokenProps = [(''uid'', JStr ''u2'')] \<rparr>) \<rparr>"

definition runtimeNoCache :: Runtime where
  "runtimeNoCache = \<lparr> opaService = newOpaService ''http://localhost:8181'' (Some False) None,
                      clockReads = 0, fetchCalls = [] \<rparr>"

definition itemsABC :: "OpaBatchItem list" where
  "itemsABC =
     [\<lparr> itemAction = ''vote_post'', itemResource = [(''id'', JStr ''a'')] \<rparr>,
      \<lparr> itemAction = ''vote_post'', itemResource = [(''id'', JStr ''b'')] \<rparr>,
      \<lparr> itemAction = ''vote_post'', itemResource = [(''id'', JStr ''c'')] \<rparr>]"

text \<open>The state after a batch that asked for item \<open>b\<close> alone and was allowed.\<close>

definition runtimeCachedB :: Runtime where
  "runtimeCachedB =
     snd (queryBatch (hostFail 9) ''u2'' claimsU2 [itemsABC ! 1] JUndefined [0] runtime0)"

text \<open>The first loop of a batch for the three items, run from that state.\<close>

definition loopCachedB :: "OpaBatchResult list \<times> (nat \<times> OpaInput) list \<times> Runtime" where
  "loopCachedB =
     checkCache hostB ''u2'' claimsU2
       (toISOString hostB (dateNow hostB (clockReads runtimeCachedB))) JUndefined itemsABC 0 [] []
       (runtimeCachedB\<lparr>clockReads := Suc (clockReads runtimeCachedB)\<rparr>)"

section \<open>The cache\<close>

text \<open>
  C6. The lookup returns a stored decision only when the cache is enabled, the key has an
  entry and the entry's expiry instant is strictly after the clock reading; in that case
  the cache is left as it is. In every other case it returns \<^verbatim>\<open>null\<close>, and when it found
  an entry that is no longer fresh it removes that entry.
\<close>

theorem getCachedDecision_fresh_or_absent:
  "getCachedDecision h key w = (r, w') \<Longrightarrow>
     (case cache (opaService w) key of
        None \<Rightarrow> r = JNull \<and> cache (opaService w') = cache (opaService w)
      | Some e \<Rightarrow>
          if cacheEnabled (opaService w) \<and> dateNow h (clockReads w) < expiry e
          then r = entryDecision e \<and> cache (opaService w') = cache (opaService w)
          else r = JNull \<and>
               cache (opaService w') =
                 (if cacheEnabled (opaService w) then (cache (opaService w))(key := None)
                  else cache (opaService w)))"
  by (auto simp: getCachedDecision_def readClock_def split: option.splits if_splits)

theorem getCachedDecision_fresh_or_absent_witness:
  "fst (getCachedDecision hostA ''k'' runtimeStale) = JNull \<and>
   cache (opaService (snd (getCachedDecision hostA ''k'' runtimeStale))) ''k'' = None"
  using getCachedDecision_fresh_or_absent [of hostA "''k''" runtimeStale
      "fst (getCachedDecision hostA ''k'' runtimeStale)" "snd (getCachedDecision hostA ''k'' runtimeStale)"]
  by (simp add: runtimeStale_def hostA_def)

section \<open>The cache key\<close>


text \<open>
  C7. Two inputs with the same subject, action and resource have the same key, whatever
  their \<^verbatim>\<open>env\<close> blocks (and token claims) are, so a lookup for one finds what was stored for
  the other.
\<close>

theorem getCacheKey_ignores_context:
  "uid a = uid b \<Longrightarrow> action a = action b \<Longrightarrow> resource a = resource b \<Longrightarrow>
     getCacheKey a = getCacheKey b \<and>
     getCachedDecision h (getCacheKey a) w = getCachedDecision h (getCacheKey b) w"
  by (simp add: getCacheKey_def)

theorem getCacheKey_ignores_context_witness:
  "env inputTypeId \<noteq> env inputOtherEnv \<and> getCacheKey inputTypeId = getCacheKey inputOtherEnv \<and>
   getCachedDecision hostA (getCacheKey inputTypeId) runtimeStale =
   getCachedDecision hostA (getCacheKey inputOtherEnv) runtimeStale"
  using getCacheKey_ignores_context [of inputTypeId inputOtherEnv hostA runtimeStale]
  by (simp add: inputTypeId_def inputOtherEnv_def)

section \<open>The entry points\<close>

text \<open>
  C8. Without a token (\<^verbatim>\<open>null\<close> or the empty string) \<^verbatim>\<open>authorize\<close> returns the denial with
  decision \<^verbatim>\<open>"no-token"\<close>, and \<^verbatim>\<open>authorizeBatch\<close> returns one such denial for each request,
  carrying the request's position. The state is returned as it was: no call was made.
\<close>

theorem no_token_denied_without_call:
  "noToken idToken \<Longrightarrow>
     authorize h idToken act res context w =
       (Inr \<lparr> authAllow = JBool False, authDecision = JStr ''no-token'', authUid = None,
              authClaims = [] \<rparr>, w) \<and>
     authorizeBatch h idToken requests order w =
       (Some (Inr (map (\<lambda>i. \<lparr> authAllow = JBool False, authDecision = JStr ''no-token'',
                               authUid = None, authClaims = [], authIndex = i \<rparr>)
                       [0..<length requests])), w)"
  by (simp add: authorize_def authorizeBatch_def denyAll_def)

theorem no_token_denied_without_call_witness:
  "noToken None \<and> noToken (Some '''') \<and>
   fetchCalls (snd (authorize hostA None ''read_post'' [(''type'', JStr ''post'')] None runtimeStale)) = [] \<and>
   fst (authorizeBatch hostA (Some '''') requestsAB [] runtimeStale) =
     Some (Inr [\<lparr> authAllow = JBool False, authDecision = JStr ''no-token'', authUid = None,
                   authClaims = [], authIndex = 0 \<rparr>,
                \<lparr> authAllow = JBool False, authDecision = JStr ''no-token'', authUid = None,
                   authClaims = [], authIndex = 1 \<rparr>])"
  using no_token_denied_without_call [of None hostA "''read_post''" "[(''type'', JStr ''post'')]" None runtimeStale]
        no_token_denied_without_call [of "Some ''''" hostA _ _ _ runtimeStale requestsAB "[]"]
  by (simp add: noToken_def requestsAB_def runtimeStale_def upt_rec)




section \<open>Single queries\<close>

lemma lookupMisses_miss: "lookupMisses w key \<Longrightarrow> \<not> truthy (fst (getCachedDecision h key w))"
  by (auto simp: lookupMisses_def getCachedDecision_def readClock_def split: option.splits)

lemma miss_lookupMisses:
  "\<not> truthy (fst (getCachedDecision h key w)) \<Longrightarrow> lookupMisses (snd (getCachedDecision h key w)) key"
  by (auto simp: lookupMisses_def getCachedDecision_def readClock_def split: option.splits if_splits)

lemma lookupMisses_getCachedDecision:
  "lookupMisses w key \<Longrightarrow> lookupMisses (snd (getCachedDecision h key' w)) key"
  by (auto simp: lookupMisses_def getCachedDecision_def readClock_def split: option.splits if_splits)

lemma lookupMisses_fetchCalls [simp]:
  "lookupMisses (w\<lparr>fetchCalls := fc\<rparr>) key = lookupMisses w key"
  by (simp add: lookupMisses_def)

lemma queryStart_miss:
  "lookupMisses w (getCacheKey input) \<Longrightarrow>
     \<exists>w1. queryStart h input w = (Pending (length (fetchCalls w)) (getCacheKey input), w1)"
  using lookupMisses_miss [of w "getCacheKey input" h]
  by (auto simp: queryStart_def Let_def split: prod.splits)  (auto simp: getCachedDecision_def readClock_def split: option.splits if_splits)

lemma readDecision_truthy: "readDecision outcome = Inr d \<Longrightarrow> truthy d"
  by (auto simp: readDecision_def noDecision_def split: FetchOutcome.splits if_splits sum.splits)


lemma queryFinish_cache:
  "cache (opaService (snd (queryFinish h key outcome w))) =
     (case readDecision outcome of
        Inl e \<Rightarrow> cache (opaService w)
      | Inr d \<Rightarrow>
          if cacheEnabled (opaService w)
          then (cache (opaService w))(key \<mapsto> \<lparr> entryDecision = d,
                  expiry = dateNow h (clockReads w) + cacheTtlMs (opaService w) \<rparr>)
          else cache (opaService w))"
  by (simp add: queryFinish_def cacheDecision_def readClock_def split: sum.splits)

lemma query_throws_state:
  assumes "query h input w = (Inl e, w1)"
  shows "lookupMisses w1 (getCacheKey input)"
proof -
  obtain st w0 where st: "queryStart h input w = (st, w0)" by (cases "queryStart h input w")
  show ?thesis
  proof (cases "truthy (fst (getCachedDecision h (getCacheKey input) w))")
    case True
    with st assms show ?thesis
      by (auto simp: query_def queryStart_def Let_def split: prod.splits)
  next
    case False
    from miss_lookupMisses [OF False]
    have m: "lookupMisses (snd (getCachedDecision h (getCacheKey input) w)) (getCacheKey input)" .
    from False st assms m show ?thesis
      by (auto simp: query_def queryStart_def Let_def queryFinish_def split: prod.splits sum.splits)
  qed
qed

text \<open>
  C10. A call that fails is not cached. When the outcome of a call makes \<^verbatim>\<open>query\<close> throw,
  \<^verbatim>\<open>queryFinish\<close> returns the state it was given; the batch callback that catches the error
  fills its slot with the denial and leaves the state as it was; and after a \<^verbatim>\<open>query\<close> that
  threw, the same query makes a call again. Whatever \<^verbatim>\<open>queryFinish\<close> leaves in the cache was
  there before or is the decision read from a response that was read successfully.
\<close>

theorem failures_are_not_cached:
  "(readDecision outcome = Inl e \<longrightarrow> queryFinish h key outcome w = (Inl e, w)) \<and>
   (readDecision (fetchOutcome h n) = Inl e \<and> p < length started \<and>
      started ! p = (i, Pending n key) \<and> slots p = None \<longrightarrow>
      settle h started p (slots, w) = (slots(p \<mapsto> errorResult i e), w)) \<and>
   (query h input w0 = (Inl e, w1) \<longrightarrow>
      (\<exists>w2. queryStart h input w1 = (Pending (length (fetchCalls w1)) (getCacheKey input), w2))) \<and>
   (\<forall>k c. cache (opaService (snd (queryFinish h key outcome w))) k = Some c \<longrightarrow>
      cache (opaService w) k = Some c \<or> (k = key \<and> readDecision outcome = Inr (entryDecision c)))"
proof -
  have a: "readDecision outcome = Inl e \<longrightarrow> queryFinish h key outcome w = (Inl e, w)"
    by (simp add: queryFinish_def)
  have b: "readDecision (fetchOutcome h n) = Inl e \<and> p < length started \<and>
      started ! p = (i, Pending n key) \<and> slots p = None \<longrightarrow>
      settle h started p (slots, w) = (slots(p \<mapsto> errorResult i e), w)"
    by (simp add: settle_def queryFinish_def itemResult_def)
  have c: "query h input w0 = (Inl e, w1) \<longrightarrow>
      (\<exists>w2. queryStart h input w1 = (Pending (length (fetchCalls w1)) (getCacheKey input), w2))"
    using query_throws_state queryStart_miss by blast
  have d: "\<forall>k c. cache (opaService (snd (queryFinish h key outcome w))) k = Some c \<longrightarrow>
      cache (opaService w) k = Some c \<or> (k = key \<and> readDecision outcome = Inr (entryDecision c))"
    by (auto simp: queryFinish_cache split: sum.splits if_splits)
  show ?thesis using a b c d by blast
qed


lemma getCacheKey_same:
  "uid a = uid b \<Longrightarrow> action a = action b \<Longrightarrow> resource a = resource b \<Longrightarrow> getCacheKey a = getCacheKey b"
  by (simp add: getCacheKey_def)

lemma query_hit:
  assumes "cache (opaService w) (getCacheKey input) = Some c" "cacheEnabled (opaService w)"
    "truthy (entryDecision c)" "dateNow h (clockReads w) < expiry c"
  shows "query h input w = (Inr (entryDecision c), w\<lparr>clockReads := Suc (clockReads w)\<rparr>)"
  using assms by (simp add: query_def queryStart_def getCachedDecision_def readClock_def)

lemma query_returns:
  assumes en: "cacheEnabled (opaService w)" and first: "query h input w = (Inr d, w1)"
  shows "truthy d \<and> cacheEnabled (opaService w1) \<and>
         (\<exists>c. cache (opaService w1) (getCacheKey input) = Some c \<and> entryDecision c = d \<and>
             length (fetchCalls w1) \<le> Suc (length (fetchCalls w)) \<and>
             (fetchCalls w1 \<noteq> fetchCalls w \<longrightarrow>
                expiry c = dateNow h (clockReads w1 - 1) + cacheTtlMs (opaService w)))"
proof (cases "truthy (fst (getCachedDecision h (getCacheKey input) w))")
  case True
  with en first show ?thesis
    by (auto simp: query_def queryStart_def getCachedDecision_def readClock_def Let_def
        split: option.splits if_splits prod.splits)
next
  case False
  obtain r w0 where g: "getCachedDecision h (getCacheKey input) w = (r, w0)"
    by (cases "getCachedDecision h (getCacheKey input) w")
  from g en have en0: "cacheEnabled (opaService w0)" and ttl0: "cacheTtlMs (opaService w0) = cacheTtlMs (opaService w)"
    and fc0: "fetchCalls w0 = fetchCalls w"
    by (auto simp: getCachedDecision_def readClock_def Let_def split: option.splits if_splits)
  from False g first have fin: "queryFinish h (getCacheKey input) (fetchOutcome h (length (fetchCalls w0)))
      (w0\<lparr>fetchCalls := fetchCalls w0 @ [(baseUrl (opaService w0) @ ''/v1/data/authz/decision'',
           stringifyObject [(''input'', inputToJson input)])]\<rparr>) = (Inr d, w1)"
    by (simp add: query_def queryStart_def Let_def)
  then have rd: "readDecision (fetchOutcome h (length (fetchCalls w0))) = Inr d"
    by (auto simp: queryFinish_def split: sum.splits)
  from fin rd en0 ttl0 fc0 show ?thesis
    by (auto simp: queryFinish_def cacheDecision_def readClock_def readDecision_truthy)
qed

text \<open>
  C5, as amended. With the cache enabled, a \<^verbatim>\<open>query\<close> that returned a decision leaves an
  entry with that decision under the key, after at most one call; when it made a call, the
  entry expires one TTL after the clock reading taken on storing it. A second \<^verbatim>\<open>query\<close> for
  the same subject, action and resource that reads the clock strictly before that expiry
  returns the same decision and changes nothing but the count of clock readings: it makes
  no call.
\<close>

theorem query_second_call_hits_cache:
  assumes en: "cacheEnabled (opaService w)"
      and first: "query h input w = (Inr d, w1)"
      and same: "uid input' = uid input" "action input' = action input" "resource input' = resource input"
  shows "\<exists>c. cache (opaService w1) (getCacheKey input) = Some c \<and> entryDecision c = d \<and>
             length (fetchCalls w1) \<le> Suc (length (fetchCalls w)) \<and>
             (fetchCalls w1 \<noteq> fetchCalls w \<longrightarrow>
                expiry c = dateNow h (clockReads w1 - 1) + cacheTtlMs (opaService w)) \<and>
             (dateNow h (clockReads w1) < expiry c \<longrightarrow>
                query h input' w1 = (Inr d, w1\<lparr>clockReads := Suc (clockReads w1)\<rparr>))"
proof -
  from query_returns [OF en first] obtain c where
    t: "truthy d" and en1: "cacheEnabled (opaService w1)" and
    c: "cache (opaService w1) (getCacheKey input) = Some c" "entryDecision c = d"
       "length (fetchCalls w1) \<le> Suc (length (fetchCalls w))"
       "fetchCalls w1 \<noteq> fetchCalls w \<longrightarrow>
                expiry c = dateNow h (clockReads w1 - 1) + cacheTtlMs (opaService w)"
    by blast
  have key: "getCacheKey input' = getCacheKey input" using same by (rule getCacheKey_same)
  have "dateNow h (clockReads w1) < expiry c \<Longrightarrow>
                query h input' w1 = (Inr d, w1\<lparr>clockReads := Suc (clockReads w1)\<rparr>)"
    using query_hit [of w1 input' c h] c t en1 key by simp
  with c show ?thesis by blast
qed


text \<open>
  C5, as the specification states it, fails in two ways. With the cache disabled (an option
  of the constructor) two queries a moment apart make two calls. With the default service,
  when the first call is rejected, nothing is cached and the second query calls again.
\<close>

theorem query_twice_counterexample:
  "cacheTtlMs (opaService runtimeNoCache) = 30000 \<and>
   fst (query (hostFail 9) inputTypeId runtimeNoCache) = Inr allowOk \<and>
   length (fetchCalls (snd (query (hostFail 9) inputTypeId
     (snd (query (hostFail 9) inputTypeId runtimeNoCache))))) = 2 \<and>
   cacheEnabled (opaService runtime0) \<and> cacheTtlMs (opaService runtime0) = 30000 \<and>
   fst (query (hostFail 0) inputTypeId runtime0) = Inl (ErrorObj ''fetch failed'') \<and>
   length (fetchCalls (snd (query (hostFail 0) inputTypeId
     (snd (query (hostFail 0) inputTypeId runtime0))))) = 2"
  by code_simp

lemma run_query_first:
  "fst (query (hostFail 9) inputTypeId runtime0) = Inr allowOk \<and>
   clockReads (snd (query (hostFail 9) inputTypeId runtime0)) = 1 \<and>
   length (fetchCalls (snd (query (hostFail 9) inputTypeId runtime0))) = 1"
  by code_simp

theorem query_second_call_hits_cache_witness:
  "fst (query (hostFail 9) inputOtherEnv (snd (query (hostFail 9) inputTypeId runtime0))) = Inr allowOk \<and>
   length (fetchCalls (snd (query (hostFail 9) inputOtherEnv (snd (query (hostFail 9) inputTypeId runtime0))))) = 1"
proof -
  let ?w1 = "snd (query (hostFail 9) inputTypeId runtime0)"
  have en: "cacheEnabled (opaService runtime0)"
    by (simp add: runtime0_def newOpaService_def)
  have first: "query (hostFail 9) inputTypeId runtime0 = (Inr allowOk, ?w1)"
    using run_query_first by (simp add: prod_eq_iff)
  have same: "uid inputOtherEnv = uid inputTypeId" "action inputOtherEnv = action inputTypeId"
      "resource inputOtherEnv = resource inputTypeId"
    by (simp_all add: inputOtherEnv_def inputTypeId_def)
  from query_second_call_hits_cache [OF en first same]
  obtain c where cc: "cache (opaService ?w1) (getCacheKey inputTypeId) = Some c \<and> entryDecision c = allowOk \<and>
             length (fetchCalls ?w1) \<le> Suc (length (fetchCalls runtime0)) \<and>
             (fetchCalls ?w1 \<noteq> fetchCalls runtime0 \<longrightarrow>
                expiry c = dateNow (hostFail 9) (clockReads ?w1 - 1) + cacheTtlMs (opaService runtime0)) \<and>
             (dateNow (hostFail 9) (clockReads ?w1) < expiry c \<longrightarrow>
                query (hostFail 9) inputOtherEnv ?w1 = (Inr allowOk, ?w1\<lparr>clockReads := Suc (clockReads ?w1)\<rparr>))"
    by (erule exE)
  then have c: "fetchCalls ?w1 \<noteq> fetchCalls runtime0 \<longrightarrow>
        expiry c = dateNow (hostFail 9) (clockReads ?w1 - 1) + cacheTtlMs (opaService runtime0)"
      "dateNow (hostFail 9) (clockReads ?w1) < expiry c \<longrightarrow>
        query (hostFail 9) inputOtherEnv ?w1 = (Inr allowOk, ?w1\<lparr>clockReads := Suc (clockReads ?w1)\<rparr>)"
    by simp_all
  have ne: "fetchCalls ?w1 \<noteq> fetchCalls runtime0"
    using run_query_first by (auto simp: runtime0_def)
  with c(1) have "expiry c = 31000"
    using run_query_first by (simp add: hostFail_def runtime0_def newOpaService_def)
  with c(2) have "query (hostFail 9) inputOtherEnv ?w1 = (Inr allowOk, ?w1\<lparr>clockReads := Suc (clockReads ?w1)\<rparr>)"
    using run_query_first by (simp add: hostFail_def)
  then show ?thesis using run_query_first by simp
qed

lemma run_query_fails:
  "fst (query hostA inputTypeId runtime0) = Inl (ErrorObj ''fetch failed'')"
  by code_simp

theorem failures_are_not_cached_witness:
  "fst (query hostA inputTypeId runtime0) = Inl (ErrorObj ''fetch failed'') \<and>
   fst (queryStart hostA inputTypeId (snd (query hostA inputTypeId runtime0))) =
     Pending (length (fetchCalls (snd (query hostA inputTypeId runtime0)))) (getCacheKey inputTypeId) \<and>
   queryFinish hostA ''k'' (Rejected (ErrorObj ''fetch failed'')) runtimeStale =
     (Inl (ErrorObj ''fetch failed''), runtimeStale)"
proof -
  let ?w1 = "snd (query hostA inputTypeId runtime0)"
  have run: "query hostA inputTypeId runtime0 = (Inl (ErrorObj ''fetch failed''), ?w1)"
    using run_query_fails by (simp add: prod_eq_iff)
  have rd: "readDecision (Rejected (ErrorObj ''fetch failed'')) = Inl (ErrorObj ''fetch failed'')"
    by (simp add: readDecision_def)
  from failures_are_not_cached [where outcome = "Rejected (ErrorObj ''fetch failed'')"
      and e = "ErrorObj ''fetch failed''" and h = hostA and key = "''k''" and w = runtimeStale
      and input = inputTypeId and ?w0.0 = runtime0 and ?w1.0 = ?w1
      and n = 0 and p = 0 and started = "[]" and i = 0 and slots = Map.empty] run rd
  show ?thesis using run_query_fails by auto
qed



section \<open>Batches\<close>

lemma getCachedDecision_keeps:
  "getCachedDecision h key w = (r, w1) \<Longrightarrow>
     fetchCalls w1 = fetchCalls w \<and> baseUrl (opaService w1) = baseUrl (opaService w) \<and>
     cacheEnabled (opaService w1) = cacheEnabled (opaService w) \<and>
     cacheTtlMs (opaService w1) = cacheTtlMs (opaService w)"
  by (auto simp: getCachedDecision_def readClock_def Let_def split: option.splits if_splits)

lemma getCachedDecision_shrinks:
  "getCachedDecision h key w = (r, w1) \<Longrightarrow> cache (opaService w1) k = Some c \<Longrightarrow>
     cache (opaService w) k = Some c"
  by (auto simp: getCachedDecision_def readClock_def Let_def split: option.splits if_splits)

lemma getCachedDecision_hit:
  "getCachedDecision h key w = (r, w1) \<Longrightarrow> truthy r \<Longrightarrow>
     \<exists>c. cache (opaService w) key = Some c \<and> r = entryDecision c"
  by (auto simp: getCachedDecision_def readClock_def Let_def split: option.splits if_splits)

lemma checkCache_acc:
  "checkCache h u claims nowIso ipArg items i rs us w =
     (case checkCache h u claims nowIso ipArg items i [] [] w of
        (R, U, w') \<Rightarrow> (rs @ R, us @ U, w'))"
proof (induction items arbitrary: i rs us w)
  case Nil
  show ?case by simp
next
  case (Cons item items)
  show ?case
    apply (simp add: Let_def split: prod.splits)
    apply (subst Cons.IH)
    apply (subst (3) Cons.IH)
    apply (subst (2) Cons.IH)
    apply (subst (4) Cons.IH)
    apply (auto split: prod.splits)
    done
qed

lemma checkCache_lookupMisses:
  "lookupMisses w k \<Longrightarrow> checkCache h u claims nowIso ipArg items i rs us w = (rs', us', w') \<Longrightarrow>
     lookupMisses w' k"
proof (induction items arbitrary: i rs us w)
  case Nil
  then show ?case by simp
next
  case (Cons item items)
  let ?key = "getCacheKey (batchInput u claims nowIso ipArg item)"
  obtain r w1 where g: "getCachedDecision h ?key w = (r, w1)"
    by (cases "getCachedDecision h ?key w")
  have m1: "lookupMisses w1 k"
    using lookupMisses_getCachedDecision [OF Cons.prems(1), of h ?key] g by simp
  show ?case
  proof (cases "truthy r")
    case True
    with Cons.prems(2) g have "checkCache h u claims nowIso ipArg items (Suc i)
        (rs @ [\<lparr> index = i, allow = member r ''allow'', decision = r \<rparr>]) us w1 = (rs', us', w')"
      by (simp add: Let_def)
    from Cons.IH [OF m1 this] show ?thesis .
  next
    case False
    with Cons.prems(2) g have "checkCache h u claims nowIso ipArg items (Suc i)
        rs (us @ [(i, batchInput u claims nowIso ipArg item)]) w1 = (rs', us', w')"
      by (simp add: Let_def)
    from Cons.IH [OF m1 this] show ?thesis .
  qed
qed

lemma checkCache_char:
  "checkCache h u claims nowIso ipArg items i [] [] w = (R, U, w') \<Longrightarrow>
     image_mset index (mset R) + image_mset fst (mset U) = mset [i..<i + length items] \<and>
     (\<forall>r\<in>set R. i \<le> index r \<and> index r < i + length items \<and>
        (\<exists>c. cache (opaService w) (getCacheKey (batchInput u claims nowIso ipArg (items ! (index r - i)))) = Some c \<and>
             decision r = entryDecision c \<and> allow r = member (entryDecision c) ''allow'')) \<and>
     (\<forall>x\<in>set U. i \<le> fst x \<and> fst x < i + length items \<and>
        snd x = batchInput u claims nowIso ipArg (items ! (fst x - i)) \<and>
        lookupMisses w' (getCacheKey (snd x))) \<and>
     fetchCalls w' = fetchCalls w \<and> baseUrl (opaService w') = baseUrl (opaService w)"
proof (induction items arbitrary: i R U w)
  case Nil
  then show ?case by simp
next
  case (Cons item items)
  let ?input = "batchInput u claims nowIso ipArg item"
  let ?key = "getCacheKey ?input"
  obtain r w1 where g: "getCachedDecision h ?key w = (r, w1)"
    by (cases "getCachedDecision h ?key w")
  obtain R' U' where rec: "checkCache h u claims nowIso ipArg items (Suc i) [] [] w1 = (R', U', w')"
    and RU: "if truthy r then R = \<lparr> index = i, allow = member r ''allow'', decision = r \<rparr> # R' \<and> U = U'
             else R = R' \<and> U = (i, ?input) # U'"
  proof (cases "truthy r")
    case True
    with Cons.prems g have "checkCache h u claims nowIso ipArg items (Suc i)
        ([] @ [\<lparr> index = i, allow = member r ''allow'', decision = r \<rparr>]) [] w1 = (R, U, w')"
      by (simp add: Let_def)
    then show ?thesis using that True
      by (subst (asm) checkCache_acc) (auto split: prod.splits)
  next
    case False
    with Cons.prems g have "checkCache h u claims nowIso ipArg items (Suc i)
        [] ([] @ [(i, ?input)]) w1 = (R, U, w')"
      by (simp add: Let_def)
    then show ?thesis using that False
      by (subst (asm) checkCache_acc) (auto split: prod.splits)
  qed
  note IH = Cons.IH [OF rec]
  have upl: "[i..<i + length (item # items)] = i # [Suc i..<Suc i + length items]"
    by (subst upt_conv_Cons) simp_all
  have up: "mset [i..<i + length (item # items)] = add_mset i (mset [Suc i..<Suc i + length items])"
    unfolding upl by (simp del: mset_upt)
  have keep: "fetchCalls w1 = fetchCalls w" "baseUrl (opaService w1) = baseUrl (opaService w)"
    using getCachedDecision_keeps [OF g] by simp_all
  have shrink: "\<And>k c. cache (opaService w1) k = Some c \<Longrightarrow> cache (opaService w) k = Some c"
    using getCachedDecision_shrinks [OF g] by blast
  have nth: "\<And>j. Suc i \<le> j \<Longrightarrow> (item # items) ! (j - i) = items ! (j - Suc i)"
    by (simp add: Suc_diff_le)
  have c1: "image_mset index (mset R) + image_mset fst (mset U) = mset [i..<i + length (item # items)]"
    using IH RU up by (auto split: if_splits simp del: mset_upt)
  have tail_R: "\<forall>r\<in>set R'. i \<le> index r \<and> index r < i + length (item # items) \<and>
        (\<exists>c. cache (opaService w) (getCacheKey (batchInput u claims nowIso ipArg ((item # items) ! (index r - i)))) = Some c \<and>
             decision r = entryDecision c \<and> allow r = member (entryDecision c) ''allow'')"
  proof
    fix x assume x: "x \<in> set R'"
    with IH obtain c where "Suc i \<le> index x" "index x < Suc i + length items"
      "cache (opaService w1) (getCacheKey (batchInput u claims nowIso ipArg (items ! (index x - Suc i)))) = Some c"
      "decision x = entryDecision c" "allow x = member (entryDecision c) ''allow''"
      by blast
    then show "i \<le> index x \<and> index x < i + length (item # items) \<and>
        (\<exists>c. cache (opaService w) (getCacheKey (batchInput u claims nowIso ipArg ((item # items) ! (index x - i)))) = Some c \<and>
             decision x = entryDecision c \<and> allow x = member (entryDecision c) ''allow'')"
      using shrink nth by auto
  qed
  have tail_U: "\<forall>x\<in>set U'. i \<le> fst x \<and> fst x < i + length (item # items) \<and>
        snd x = batchInput u claims nowIso ipArg ((item # items) ! (fst x - i)) \<and>
        lookupMisses w' (getCacheKey (snd x))"
  proof
    fix x assume x: "x \<in> set U'"
    with IH have "Suc i \<le> fst x" "fst x < Suc i + length items"
      "snd x = batchInput u claims nowIso ipArg (items ! (fst x - Suc i))"
      "lookupMisses w' (getCacheKey (snd x))"
      by blast+
    then show "i \<le> fst x \<and> fst x < i + length (item # items) \<and>
        snd x = batchInput u claims nowIso ipArg ((item # items) ! (fst x - i)) \<and>
        lookupMisses w' (getCacheKey (snd x))"
      using nth by auto
  qed
  have c2: "\<forall>r\<in>set R. i \<le> index r \<and> index r < i + length (item # items) \<and>
        (\<exists>c. cache (opaService w) (getCacheKey (batchInput u claims nowIso ipArg ((item # items) ! (index r - i)))) = Some c \<and>
             decision r = entryDecision c \<and> allow r = member (entryDecision c) ''allow'')"
  proof (cases "truthy r")
    case True
    from getCachedDecision_hit [OF g True] obtain c where
      "cache (opaService w) ?key = Some c" "r = entryDecision c" by blast
    with True RU tail_R show ?thesis by auto
  next
    case False
    with RU tail_R show ?thesis by auto
  qed
  have c3: "\<forall>x\<in>set U. i \<le> fst x \<and> fst x < i + length (item # items) \<and>
        snd x = batchInput u claims nowIso ipArg ((item # items) ! (fst x - i)) \<and>
        lookupMisses w' (getCacheKey (snd x))"
  proof (cases "truthy r")
    case True
    with RU tail_U show ?thesis by auto
  next
    case False
    have "lookupMisses w1 ?key" using miss_lookupMisses [of h ?key w] g False by simp
    from checkCache_lookupMisses [OF this rec] have "lookupMisses w' ?key" .
    with False RU tail_U show ?thesis by auto
  qed
  from IH keep have c4: "fetchCalls w' = fetchCalls w \<and> baseUrl (opaService w') = baseUrl (opaService w)"
    by simp
  from c1 c2 c3 c4 show ?case by blast
qed

lemma queryStart_miss_state:
  assumes "lookupMisses w (getCacheKey input)"
  shows "queryStart h input w =
     (Pending (length (fetchCalls w)) (getCacheKey input),
      (snd (getCachedDecision h (getCacheKey input) w))\<lparr>fetchCalls := fetchCalls w @ [requestOf w input]\<rparr>)"
proof -
  obtain r w0 where g: "getCachedDecision h (getCacheKey input) w = (r, w0)"
    by (cases "getCachedDecision h (getCacheKey input) w")
  from lookupMisses_miss [OF assms, of h] g have "\<not> truthy r" by simp
  with g getCachedDecision_keeps [OF g] show ?thesis
    by (simp add: queryStart_def requestOf_def)
qed

lemma startAll_misses:
  "\<forall>x\<in>set U. lookupMisses w (getCacheKey (snd x)) \<Longrightarrow>
     \<exists>started w'. startAll h U w = (started, w') \<and> length started = length U \<and>
       (\<forall>p<length U. started ! p =
          (fst (U ! p), Pending (length (fetchCalls w) + p) (getCacheKey (snd (U ! p))))) \<and>
       fetchCalls w' = fetchCalls w @ map (\<lambda>x. requestOf w (snd x)) U"
proof (induction U arbitrary: w)
  case Nil
  show ?case by simp
next
  case (Cons x U)
  obtain i input where x: "x = (i, input)" by (cases x)
  let ?w0 = "snd (getCachedDecision h (getCacheKey input) w)"
  let ?w1 = "?w0\<lparr>fetchCalls := fetchCalls w @ [requestOf w input]\<rparr>"
  have m: "lookupMisses w (getCacheKey input)" using Cons.prems x by simp
  have qs: "queryStart h input w = (Pending (length (fetchCalls w)) (getCacheKey input), ?w1)"
    by (rule queryStart_miss_state [OF m])
  have keep: "baseUrl (opaService ?w0) = baseUrl (opaService w)"
    using getCachedDecision_keeps [of h "getCacheKey input" w "fst (getCachedDecision h (getCacheKey input) w)" ?w0]
    by simp
  have rest: "\<forall>y\<in>set U. lookupMisses ?w1 (getCacheKey (snd y))"
    using Cons.prems lookupMisses_getCachedDecision by simp
  from Cons.IH [OF rest] obtain started w' where
    st: "startAll h U ?w1 = (started, w')" "length started = length U"
      "\<forall>p<length U. started ! p =
          (fst (U ! p), Pending (length (fetchCalls ?w1) + p) (getCacheKey (snd (U ! p))))"
      "fetchCalls w' = fetchCalls ?w1 @ map (\<lambda>y. requestOf ?w1 (snd y)) U"
    by blast
  have req: "\<And>y. requestOf ?w1 y = requestOf w y"
    using keep by (simp add: requestOf_def)
  have run: "startAll h (x # U) w = ((i, Pending (length (fetchCalls w)) (getCacheKey input)) # started, w')"
    using x qs st(1) by simp
  have nth: "\<forall>p<length (x # U). ((i, Pending (length (fetchCalls w)) (getCacheKey input)) # started) ! p =
          (fst ((x # U) ! p), Pending (length (fetchCalls w) + p) (getCacheKey (snd ((x # U) ! p))))"
  proof (intro allI impI)
    fix p assume p: "p < length (x # U)"
    show "((i, Pending (length (fetchCalls w)) (getCacheKey input)) # started) ! p =
          (fst ((x # U) ! p), Pending (length (fetchCalls w) + p) (getCacheKey (snd ((x # U) ! p))))"
    proof (cases p)
      case 0
      then show ?thesis using x by simp
    next
      case (Suc q)
      with p st(3) show ?thesis by simp
    qed
  qed
  have fc: "fetchCalls w' = fetchCalls w @ map (\<lambda>y. requestOf w (snd y)) (x # U)"
    using st(4) req x by simp
  from run st(2) nth fc show ?case by simp
qed

lemma queryFinish_fst: "fst (queryFinish h key outcome w) = readDecision outcome"
  by (simp add: queryFinish_def split: sum.splits)

lemma queryFinish_fetchCalls: "fetchCalls (snd (queryFinish h key outcome w)) = fetchCalls w"
  by (simp add: queryFinish_def cacheDecision_def readClock_def Let_def split: sum.splits)

lemma settle_step:
  "settle h started p (slots, w) = (slots', w') \<Longrightarrow>
     slots' = (if p < length started \<and> slots p = None then slots(p \<mapsto> resultAt h started p) else slots) \<and>
     fetchCalls w' = fetchCalls w"
proof (cases "p < length started \<and> slots p = None")
  case False
  assume "settle h started p (slots, w) = (slots', w')"
  with False show ?thesis by (auto simp: settle_def)
next
  case True
  assume s: "settle h started p (slots, w) = (slots', w')"
  obtain i st where sp: "started ! p = (i, st)" by (cases "started ! p")
  show ?thesis
  proof (cases st)
    case (Hit d)
    with s True sp show ?thesis by (auto simp: settle_def resultAt_def)
  next
    case (Pending n key)
    with s True sp queryFinish_fst [of h key "fetchOutcome h n" w]
      queryFinish_fetchCalls [of h key "fetchOutcome h n" w]
    show ?thesis by (auto simp: settle_def resultAt_def split: prod.splits)
  qed
qed

lemma fold_settle:
  "fold (settle h started) order (slots, w) = (slots', w') \<Longrightarrow>
     (\<forall>p. slots' p = (if slots p \<noteq> None then slots p
                      else if p \<in> set order \<and> p < length started then Some (resultAt h started p)
                      else None)) \<and>
     fetchCalls w' = fetchCalls w"
proof (induction order arbitrary: slots w)
  case Nil
  then show ?case by auto
next
  case (Cons q order)
  obtain s1 w1 where s: "settle h started q (slots, w) = (s1, w1)"
    by (cases "settle h started q (slots, w)")
  from Cons.prems s have f: "fold (settle h started) order (s1, w1) = (slots', w')" by simp
  note IH = Cons.IH [OF f]
  note st = settle_step [OF s]
  show ?case
  proof (intro conjI allI)
    show "fetchCalls w' = fetchCalls w" using IH st by simp
  next
    fix p
    show "slots' p = (if slots p \<noteq> None then slots p
                      else if p \<in> set (q # order) \<and> p < length started then Some (resultAt h started p)
                      else None)"
      using IH st by (auto split: if_splits)
  qed
qed

lemma those_map_Some:
  "(\<forall>x\<in>set xs. g x = Some (f x)) \<Longrightarrow> those (map g xs) = Some (map f xs)"
  by (induction xs) auto

lemma those_map_None:
  "x \<in> set xs \<Longrightarrow> g x = None \<Longrightarrow> those (map g xs) = None"
  by (induction xs) (auto split: option.splits)

lemma sortByIndex_upt:
  assumes "image_mset index (mset xs) = mset [0..<n]"
  shows "map index (sortByIndex xs) = [0..<n]"
proof -
  have "mset (map index (sort_key index xs)) = mset [0..<n]"
    using assms by simp
  moreover have "sorted (map index (sort_key index xs))"
    by (rule sorted_sort_key)
  ultimately have "sort [0..<n] = map index (sort_key index xs)"
    by (rule properties_for_sort)
  then show ?thesis by (simp add: sortByIndex_def)
qed

lemma nth_by_index:
  assumes "map index rs = [0..<n]" "x \<in> set rs"
  shows "rs ! index x = x"
proof -
  from assms(2) obtain j where j: "j < length rs" "rs ! j = x"
    by (auto simp: in_set_conv_nth)
  have len: "length rs = n" using assms(1) by (metis length_map length_upt minus_nat.diff_0)
  have "index (rs ! j) = map index rs ! j" using j by simp
  also have "\<dots> = j" using assms(1) j len by simp
  finally show ?thesis using j by simp
qed

lemma queryBatch_char:
  assumes loop: "checkCache h u claims (toISOString h (dateNow h (clockReads w))) ipArg items 0 [] []
                   (w\<lparr>clockReads := Suc (clockReads w)\<rparr>) = (hits, misses, w1)"
      and settles: "\<forall>p<length misses. p \<in> set order"
  shows "\<exists>w'. queryBatch h u claims items ipArg order w =
           (Some (sortByIndex (hits @ map (\<lambda>p. itemResult (fst (misses ! p))
                     (readDecision (fetchOutcome h (length (fetchCalls w) + p)))) [0..<length misses])), w') \<and>
         fetchCalls w' = fetchCalls w @ map (\<lambda>x. requestOf w (snd x)) misses"
proof -
  note cc = checkCache_char [OF loop]
  have fc1: "fetchCalls w1 = fetchCalls w" and bu1: "baseUrl (opaService w1) = baseUrl (opaService w)"
    using cc by simp_all
  have req: "\<And>y. requestOf w1 y = requestOf w y" using bu1 by (simp add: requestOf_def)
  show ?thesis
  proof (cases "misses = []")
    case True
    with loop fc1 show ?thesis
      by (simp add: queryBatch_def readClock_def)
  next
    case False
    have miss: "\<forall>x\<in>set misses. lookupMisses w1 (getCacheKey (snd x))" using cc by blast
    from startAll_misses [OF miss, of h] obtain started w2 where
      st: "startAll h misses w1 = (started, w2)" "length started = length misses"
        "\<forall>p<length misses. started ! p =
          (fst (misses ! p), Pending (length (fetchCalls w1) + p) (getCacheKey (snd (misses ! p))))"
        "fetchCalls w2 = fetchCalls w1 @ map (\<lambda>x. requestOf w1 (snd x)) misses"
      by blast
    obtain slots w3 where f: "fold (settle h started) order (Map.empty, w2) = (slots, w3)"
      by (cases "fold (settle h started) order (Map.empty, w2)")
    note fs = fold_settle [OF f]
    have slot: "\<forall>p\<in>set [0..<length started]. slots p = Some (resultAt h started p)"
      using fs settles st(2) by simp
    have pa: "promiseAll (length started) slots = Some (map (resultAt h started) [0..<length started])"
      unfolding promiseAll_def by (rule those_map_Some [OF slot])
    have res: "map (resultAt h started) [0..<length started] =
        map (\<lambda>p. itemResult (fst (misses ! p))
               (readDecision (fetchOutcome h (length (fetchCalls w) + p)))) [0..<length misses]"
      using st(2) st(3) fc1 by (auto simp: resultAt_def)
    have fc3: "fetchCalls w3 = fetchCalls w @ map (\<lambda>x. requestOf w (snd x)) misses"
      using fs st(4) fc1 req by simp
    from False loop st(1) f pa res fc3 show ?thesis
      by (simp add: queryBatch_def readClock_def)
  qed
qed

lemma index_itemResult [simp]: "index (itemResult i r) = i"
  by (simp add: itemResult_def errorResult_def split: sum.splits)

lemma queryBatch_positions:
  assumes loop: "checkCache h u claims (toISOString h (dateNow h (clockReads w))) ipArg items 0 [] []
                   (w\<lparr>clockReads := Suc (clockReads w)\<rparr>) = (hits, misses, w1)"
      and settles: "\<forall>p<length misses. p \<in> set order"
  shows "\<exists>rs w'. queryBatch h u claims items ipArg order w = (Some rs, w') \<and>
           fetchCalls w' = fetchCalls w @ map (\<lambda>x. requestOf w (snd x)) misses \<and>
           length hits + length misses = length items \<and>
           map index rs = [0..<length items] \<and>
           (\<forall>r\<in>set hits. rs ! index r = r) \<and>
           (\<forall>p<length misses. fst (misses ! p) < length items \<and>
              rs ! fst (misses ! p) =
                itemResult (fst (misses ! p)) (readDecision (fetchOutcome h (length (fetchCalls w) + p))))"
proof -
  let ?f = "\<lambda>p. itemResult (fst (misses ! p)) (readDecision (fetchOutcome h (length (fetchCalls w) + p)))"
  let ?O = "map ?f [0..<length misses]"
  let ?rs = "sortByIndex (hits @ ?O)"
  from queryBatch_char [OF loop settles] obtain w' where
    run: "queryBatch h u claims items ipArg order w = (Some ?rs, w')"
    and fc: "fetchCalls w' = fetchCalls w @ map (\<lambda>x. requestOf w (snd x)) misses"
    by blast
  note cc = checkCache_char [OF loop]
  have "map index ?O = map (\<lambda>p. fst (misses ! p)) [0..<length misses]" by simp
  also have "\<dots> = map fst misses" by (rule nth_equalityI) simp_all
  finally have iO: "map index ?O = map fst misses" .
  have "image_mset index (mset (hits @ ?O)) = image_mset index (mset hits) + mset (map index ?O)"
    by (simp del: mset_map mset_upt map_map add: mset_map [symmetric])
  also have "\<dots> = image_mset index (mset hits) + image_mset fst (mset misses)"
    unfolding iO by simp
  also have "\<dots> = mset [0..<length items]" using cc by simp
  finally have ms: "image_mset index (mset (hits @ ?O)) = mset [0..<length items]" .
  from sortByIndex_upt [OF ms] have idx: "map index ?rs = [0..<length items]" .
  have "size (image_mset index (mset (hits @ ?O))) = size (mset [0..<length items])"
    using ms by simp
  then have len: "length hits + length misses = length items" by simp
  have set_rs: "set ?rs = set hits \<union> set ?O" by (simp add: sortByIndex_def)
  have h: "\<forall>r\<in>set hits. ?rs ! index r = r"
    using nth_by_index [OF idx] set_rs by blast
  have m: "\<forall>p<length misses. fst (misses ! p) < length items \<and> ?rs ! fst (misses ! p) = ?f p"
  proof (intro allI impI)
    fix p assume p: "p < length misses"
    then have "?f p \<in> set ?rs" using set_rs by auto
    from nth_by_index [OF idx this] have "?rs ! fst (misses ! p) = ?f p" by simp
    moreover have "fst (misses ! p) < length items" using cc p by (metis add_0 nth_mem)
    ultimately show "fst (misses ! p) < length items \<and> ?rs ! fst (misses ! p) = ?f p" by simp
  qed
  from run fc len idx h m show ?thesis by blast
qed

lemma truthy_getProp: "truthy d \<Longrightarrow> getProp d k = Inr (member d k)"
  by (cases d) (simp_all add: getProp_def)

text \<open>
  C3. Let the first loop of a batch of N items find M of them in the cache (\<open>hits\<close>) and
  leave the others (\<open>misses\<close>), and let every call that is made settle, in any order. Then
  \<^verbatim>\<open>queryBatch\<close> resolves; it has made exactly one call for each miss, N - M in all, in the
  order of the items; the result has length N and its indices are 0, 1, ..., N - 1, so
  position \<open>i\<close> holds the result of item \<open>i\<close>: the cached decision for a hit, and for a miss
  what the callback makes of the outcome of the call made for that item. The result is the
  same for every order in which the calls settle. For no items the result is empty and no
  call is made.
\<close>

theorem queryBatch_ordered_results:
  assumes loop: "checkCache h u claims (toISOString h (dateNow h (clockReads w))) ipArg items 0 [] []
                   (w\<lparr>clockReads := Suc (clockReads w)\<rparr>) = (hits, misses, w1)"
      and settles: "\<forall>p<length misses. p \<in> set order"
  shows "\<exists>rs w'. queryBatch h u claims items ipArg order w = (Some rs, w') \<and>
           length hits + length misses = length items \<and>
           length (fetchCalls w') = length (fetchCalls w) + (length items - length hits) \<and>
           fetchCalls w' = fetchCalls w @ map (\<lambda>x. requestOf w (snd x)) misses \<and>
           length rs = length items \<and> map index rs = [0..<length items] \<and>
           (\<forall>r\<in>set hits. rs ! index r = r \<and>
              (\<exists>c. cache (opaService w) (getCacheKey (batchInput u claims
                        (toISOString h (dateNow h (clockReads w))) ipArg (items ! index r))) = Some c \<and>
                   decision r = entryDecision c \<and> allow r = member (entryDecision c) ''allow'')) \<and>
           (\<forall>p<length misses.
              snd (misses ! p) = batchInput u claims (toISOString h (dateNow h (clockReads w))) ipArg
                                   (items ! fst (misses ! p)) \<and>
              rs ! fst (misses ! p) =
                itemResult (fst (misses ! p)) (readDecision (fetchOutcome h (length (fetchCalls w) + p)))) \<and>
           (\<forall>order'. (\<forall>p<length misses. p \<in> set order') \<longrightarrow>
              fst (queryBatch h u claims items ipArg order' w) = Some rs) \<and>
           (items = [] \<longrightarrow> rs = [] \<and> fetchCalls w' = fetchCalls w)"
proof -
  from queryBatch_positions [OF loop settles] obtain rs w' where
    run: "queryBatch h u claims items ipArg order w = (Some rs, w')"
    and fc: "fetchCalls w' = fetchCalls w @ map (\<lambda>x. requestOf w (snd x)) misses"
    and len: "length hits + length misses = length items"
    and idx: "map index rs = [0..<length items]"
    and hs: "\<forall>r\<in>set hits. rs ! index r = r"
    and ms: "\<forall>p<length misses. fst (misses ! p) < length items \<and>
              rs ! fst (misses ! p) =
                itemResult (fst (misses ! p)) (readDecision (fetchOutcome h (length (fetchCalls w) + p)))"
    by blast
  note cc = checkCache_char [OF loop]
  have n: "length (fetchCalls w') = length (fetchCalls w) + (length items - length hits)"
    using fc len by simp
  have lrs: "length rs = length items"
    using idx by (metis length_map length_upt minus_nat.diff_0)
  have hits': "\<forall>r\<in>set hits. rs ! index r = r \<and>
              (\<exists>c. cache (opaService w) (getCacheKey (batchInput u claims
                        (toISOString h (dateNow h (clockReads w))) ipArg (items ! index r))) = Some c \<and>
                   decision r = entryDecision c \<and> allow r = member (entryDecision c) ''allow'')"
    using hs cc by simp
  have misses': "\<forall>p<length misses.
              snd (misses ! p) = batchInput u claims (toISOString h (dateNow h (clockReads w))) ipArg
                                   (items ! fst (misses ! p)) \<and>
              rs ! fst (misses ! p) =
                itemResult (fst (misses ! p)) (readDecision (fetchOutcome h (length (fetchCalls w) + p)))"
    using ms cc by (metis diff_zero nth_mem)
  have any: "\<forall>order'. (\<forall>p<length misses. p \<in> set order') \<longrightarrow>
              fst (queryBatch h u claims items ipArg order' w) = Some rs"
  proof (intro allI impI)
    fix order' assume s': "\<forall>p<length misses. p \<in> set order'"
    from queryBatch_char [OF loop s'] queryBatch_char [OF loop settles] run
    show "fst (queryBatch h u claims items ipArg order' w) = Some rs" by auto
  qed
  have empty: "items = [] \<longrightarrow> rs = [] \<and> fetchCalls w' = fetchCalls w"
    using lrs len fc by auto
  from run len n fc lrs idx hits' misses' any empty show ?thesis by blast
qed

text \<open>
  C4. In the same setting, the result at the position of a missed item depends on the outcome
  of its own call only. When \<^verbatim>\<open>query\<close> throws on that outcome, the result is the denial
  \<^verbatim>\<open>{ allow: false, reason: <message> }\<close> with \<^verbatim>\<open>allow = false\<close>; when it returns a decision,
  the result carries that decision and the decision's own \<^verbatim>\<open>allow\<close>. The list has length N
  whatever the other calls did.
\<close>

theorem queryBatch_fault_isolation:
  assumes loop: "checkCache h u claims (toISOString h (dateNow h (clockReads w))) ipArg items 0 [] []
                   (w\<lparr>clockReads := Suc (clockReads w)\<rparr>) = (hits, misses, w1)"
      and settles: "\<forall>p<length misses. p \<in> set order"
      and p: "p < length misses"
  shows "\<exists>rs w'. queryBatch h u claims items ipArg order w = (Some rs, w') \<and>
           length rs = length items \<and> fst (misses ! p) < length items \<and>
           (case readDecision (fetchOutcome h (length (fetchCalls w) + p)) of
              Inl e \<Rightarrow>
                rs ! fst (misses ! p) =
                  \<lparr> index = fst (misses ! p), allow = JBool False,
                    decision = JObj [(''allow'', JBool False),
                                     (''reason'', JStr (case e of ErrorObj m \<Rightarrow> m
                                                        | NonError v \<Rightarrow> ''OPA query failed''))] \<rparr>
            | Inr d \<Rightarrow>
                rs ! fst (misses ! p) =
                  \<lparr> index = fst (misses ! p), allow = member d ''allow'', decision = d \<rparr>)"
proof -
  from queryBatch_positions [OF loop settles] obtain rs w' where
    run: "queryBatch h u claims items ipArg order w = (Some rs, w')"
    and idx: "map index rs = [0..<length items]"
    and ms: "\<forall>p<length misses. fst (misses ! p) < length items \<and>
              rs ! fst (misses ! p) =
                itemResult (fst (misses ! p)) (readDecision (fetchOutcome h (length (fetchCalls w) + p)))"
    by blast
  have lrs: "length rs = length items"
    using idx by (metis length_map length_upt minus_nat.diff_0)
  let ?i = "fst (misses ! p)"
  let ?r = "readDecision (fetchOutcome h (length (fetchCalls w) + p))"
  from ms p have at: "?i < length items" "rs ! ?i = itemResult ?i ?r" by simp_all
  have "case ?r of
          Inl e \<Rightarrow> itemResult ?i ?r =
                  \<lparr> index = ?i, allow = JBool False,
                    decision = JObj [(''allow'', JBool False),
                                     (''reason'', JStr (case e of ErrorObj m \<Rightarrow> m
                                                        | NonError v \<Rightarrow> ''OPA query failed''))] \<rparr>
        | Inr d \<Rightarrow> itemResult ?i ?r = \<lparr> index = ?i, allow = member d ''allow'', decision = d \<rparr>"
    by (auto simp: itemResult_def errorResult_def truthy_getProp dest: readDecision_truthy split: sum.splits)
  with at run lrs show ?thesis by (auto split: sum.splits)
qed

lemma run_loopCachedB:
  "length (fst loopCachedB) = 1 \<and> length (fst (snd loopCachedB)) = 2 \<and>
   fst (fst (snd loopCachedB) ! 0) = 0 \<and> fst (fst (snd loopCachedB) ! 1) = 2 \<and>
   readDecision (fetchOutcome hostB (length (fetchCalls runtimeCachedB) + 0)) = Inl (ErrorObj ''fetch failed'') \<and>
   readDecision (fetchOutcome hostB (length (fetchCalls runtimeCachedB) + 1)) = Inr allowOk"
  by code_simp

lemma loopCachedB_run:
  "checkCache hostB ''u2'' claimsU2
       (toISOString hostB (dateNow hostB (clockReads runtimeCachedB))) JUndefined itemsABC 0 [] []
       (runtimeCachedB\<lparr>clockReads := Suc (clockReads runtimeCachedB)\<rparr>) =
   (fst loopCachedB, fst (snd loopCachedB), snd (snd loopCachedB))"
  by (simp add: loopCachedB_def)

lemma loopCachedB_settles:
  "\<forall>p<length (fst (snd loopCachedB)). p \<in> set [1, 0]"
  "\<forall>p<length (fst (snd loopCachedB)). p \<in> set [0, 1]"
  using run_loopCachedB by (auto simp: less_Suc_eq numeral_2_eq_2)

theorem queryBatch_ordered_results_witness:
  "\<exists>rs. fst (queryBatch hostB ''u2'' claimsU2 itemsABC JUndefined [1, 0] runtimeCachedB) = Some rs \<and>
        fst (queryBatch hostB ''u2'' claimsU2 itemsABC JUndefined [0, 1] runtimeCachedB) = Some rs \<and>
        map index rs = [0, 1, 2] \<and>
        length (fetchCalls (snd (queryBatch hostB ''u2'' claimsU2 itemsABC JUndefined [1, 0] runtimeCachedB))) =
          length (fetchCalls runtimeCachedB) + 2"
proof -
  have three: "length itemsABC = 3" "[0..<length itemsABC] = [0, 1, 2]"
    by (simp_all add: itemsABC_def upt_rec)
  from queryBatch_ordered_results [OF loopCachedB_run loopCachedB_settles(1)] obtain rs w' where
    r: "queryBatch hostB ''u2'' claimsU2 itemsABC JUndefined [1, 0] runtimeCachedB = (Some rs, w')"
       "length (fetchCalls w') = length (fetchCalls runtimeCachedB) + (length itemsABC - length (fst loopCachedB))"
       "map index rs = [0..<length itemsABC]"
       "\<forall>order'. (\<forall>p<length (fst (snd loopCachedB)). p \<in> set order') \<longrightarrow>
              fst (queryBatch hostB ''u2'' claimsU2 itemsABC JUndefined order' runtimeCachedB) = Some rs"
    by blast
  from r(4) loopCachedB_settles(2)
  have "fst (queryBatch hostB ''u2'' claimsU2 itemsABC JUndefined [0, 1] runtimeCachedB) = Some rs"
    by blast
  with r three run_loopCachedB show ?thesis by simp
qed

theorem queryBatch_fault_isolation_witness:
  "\<exists>rs. fst (queryBatch hostB ''u2'' claimsU2 itemsABC JUndefined [1, 0] runtimeCachedB) = Some rs \<and>
        length rs = 3 \<and>
        rs ! 0 = \<lparr> index = 0, allow = JBool False,
                   decision = JObj [(''allow'', JBool False), (''reason'', JStr ''fetch failed'')] \<rparr> \<and>
        rs ! 2 = \<lparr> index = 2, allow = JBool True, decision = allowOk \<rparr>"
proof -
  have p0: "0 < length (fst (snd loopCachedB))" and p1: "1 < length (fst (snd loopCachedB))"
    using run_loopCachedB by simp_all
  have three: "length itemsABC = 3" by (simp add: itemsABC_def)
  have ok: "member allowOk ''allow'' = JBool True" by (simp add: allowOk_def)
  from queryBatch_fault_isolation [OF loopCachedB_run loopCachedB_settles(1) p0]
  obtain rs w' where a:
    "queryBatch hostB ''u2'' claimsU2 itemsABC JUndefined [1, 0] runtimeCachedB = (Some rs, w')"
    "length rs = length itemsABC"
    "case readDecision (fetchOutcome hostB (length (fetchCalls runtimeCachedB) + 0)) of
              Inl e \<Rightarrow>
                rs ! fst (fst (snd loopCachedB) ! 0) =
                  \<lparr> index = fst (fst (snd loopCachedB) ! 0), allow = JBool False,
                    decision = JObj [(''allow'', JBool False),
                                     (''reason'', JStr (case e of ErrorObj m \<Rightarrow> m
                                                        | NonError v \<Rightarrow> ''OPA query failed''))] \<rparr>
            | Inr d \<Rightarrow>
                rs ! fst (fst (snd loopCachedB) ! 0) =
                  \<lparr> index = fst (fst (snd loopCachedB) ! 0), allow = member d ''allow'', decision = d \<rparr>"
    by blast
  from queryBatch_fault_isolation [OF loopCachedB_run loopCachedB_settles(1) p1] a(1)
  have b: "case readDecision (fetchOutcome hostB (length (fetchCalls runtimeCachedB) + 1)) of
              Inl e \<Rightarrow>
                rs ! fst (fst (snd loopCachedB) ! 1) =
                  \<lparr> index = fst (fst (snd loopCachedB) ! 1), allow = JBool False,
                    decision = JObj [(''allow'', JBool False),
                                     (''reason'', JStr (case e of ErrorObj m \<Rightarrow> m
                                                        | NonError v \<Rightarrow> ''OPA query failed''))] \<rparr>
            | Inr d \<Rightarrow>
                rs ! fst (fst (snd loopCachedB) ! 1) =
                  \<lparr> index = fst (fst (snd loopCachedB) ! 1), allow = member d ''allow'', decision = d \<rparr>"
    by auto
  have r0: "rs ! 0 = \<lparr> index = 0, allow = JBool False,
                   decision = JObj [(''allow'', JBool False), (''reason'', JStr ''fetch failed'')] \<rparr>"
    using a(3) run_loopCachedB by (simp only: sum.case thrown.case)
  have r2: "rs ! 2 = \<lparr> index = 2, allow = JBool True, decision = allowOk \<rparr>"
    using b run_loopCachedB ok by (simp only: sum.case)
  from a(1) a(2) three r0 r2 show ?thesis by simp
qed


section \<open>Failures at the entry points\<close>

lemma query_miss:
  assumes "lookupMisses w (getCacheKey input)"
  shows "fst (query h input w) = readDecision (fetchOutcome h (length (fetchCalls w)))"
  using queryStart_miss_state [OF assms, of h]
  by (simp add: query_def queryFinish_fst)

lemma getCacheKey_fields:
  "getCacheKey \<lparr> uid = u, tokenClaims = c, action = a, resource = r, env = e \<rparr> =
   getCacheKey \<lparr> uid = u, tokenClaims = c', action = a, resource = r, env = e' \<rparr>"
  by (simp add: getCacheKey_def)

lemma authorize_total: "\<exists>r. fst (authorize h idToken act res ctx w) = Inr r"
  by (auto simp: authorize_def split: prod.splits sum.splits)

lemma authorizeBatch_no_throw:
  "fst (authorizeBatch h idToken requests order w) = None \<or>
   (\<exists>rs. fst (authorizeBatch h idToken requests order w) = Some (Inr rs))"
  by (auto simp: authorizeBatch_def split: prod.splits sum.splits option.splits)

lemma queryBatch_returns:
  assumes "\<forall>p<length items. p \<in> set order"
  shows "\<exists>rs. fst (queryBatch h u claims items ipArg order w) = Some rs \<and> length rs = length items"
proof -
  obtain hits misses w1 where
    loop: "checkCache h u claims (toISOString h (dateNow h (clockReads w))) ipArg items 0 [] []
                   (w\<lparr>clockReads := Suc (clockReads w)\<rparr>) = (hits, misses, w1)"
    by (metis prod_cases3)
  note cc = checkCache_char [OF loop]
  have "size (image_mset index (mset hits) + image_mset fst (mset misses)) = size (mset [0..<0 + length items])"
    using cc by simp
  then have "length misses \<le> length items" by simp
  with assms have settles: "\<forall>p<length misses. p \<in> set order" by simp
  from queryBatch_positions [OF loop settles] obtain rs w' where
    "queryBatch h u claims items ipArg order w = (Some rs, w')" "map index rs = [0..<length items]"
    by blast
  moreover from this have "length rs = length items"
    by (metis length_map length_upt minus_nat.diff_0)
  ultimately show ?thesis by simp
qed

lemma authorizeBatch_returns:
  assumes "\<forall>p<length requests. p \<in> set order"
  shows "\<exists>rs. fst (authorizeBatch h idToken requests order w) = Some (Inr rs) \<and> length rs = length requests"
proof (cases "noToken idToken")
  case True
  then show ?thesis by (simp add: authorizeBatch_def denyAll_def)
next
  case False
  show ?thesis
  proof (cases "verifyToken h (the idToken)")
    case (Inl e)
    with False show ?thesis
      by (simp add: authorizeBatch_def authorizeBatchTry_def denyAll_def)
  next
    case (Inr uc)
    obtain u claims where uc: "uc = (u, claims)" by (cases uc)
    let ?items = "map (\<lambda>req. \<lparr> itemAction = reqAction req, itemResource = reqResource req \<rparr>) requests"
    from assms have "\<forall>p<length ?items. p \<in> set order" by simp
    from queryBatch_returns [OF this, of h u claims "firstContextIp requests" w] obtain rs where
      "fst (queryBatch h u claims ?items (firstContextIp requests) order w) = Some rs"
      "length rs = length ?items"
      by blast
    with False Inr uc show ?thesis
      by (auto simp: authorizeBatch_def authorizeBatchTry_def split: prod.splits)
  qed
qed

lemma readDecision_failures:
  "readDecision (Rejected e) = Inl e"
  "\<not> ok res \<Longrightarrow> \<exists>e'. readDecision (Resolved res) = Inl e'"
  "ok res \<Longrightarrow> bodyJson res = Inl e \<Longrightarrow> readDecision (Resolved res) = Inl e"
  "ok res \<Longrightarrow> bodyJson res = Inr json \<Longrightarrow> \<not> truthy (member json ''result'') \<Longrightarrow>
     (\<exists>e'. readDecision (Resolved res) = Inl e') \<or> readDecision (Resolved res) = Inr noDecision"
  by (auto simp: readDecision_def getProp_def split: sum.splits)

lemma authorize_verify_fails:
  assumes "\<not> noToken idToken" "verifyIdToken h (the idToken) = Inl e"
  shows "authorize h idToken act res ctx w =
           (Inr \<lparr> authAllow = JBool False, authDecision = JStr ''Invalid ID token'',
                  authUid = None, authClaims = [] \<rparr>, w)"
    and "authorizeBatch h idToken requests order w =
           (Some (Inr (map (\<lambda>i. \<lparr> authAllow = JBool False, authDecision = JStr ''Invalid ID token'',
                                   authUid = None, authClaims = [], authIndex = i \<rparr>)
                           [0..<length requests])), w)"
  using assms
  by (simp_all add: authorize_def authorizeTry_def authorizeBatch_def authorizeBatchTry_def
      verifyToken_def errorMessage_def denyAll_def)

lemma authorize_call_outcome:
  assumes tok: "\<not> noToken idToken" and v: "verifyToken h (the idToken) = Inr (u, claims)"
    and miss: "lookupMisses w (getCacheKey \<lparr> uid = u, tokenClaims = claims, action = act,
                   resource = res, env = e0 \<rparr>)"
  shows "fst (authorize h idToken act res ctx w) =
     (case readDecision (fetchOutcome h (length (fetchCalls w))) of
        Inl e \<Rightarrow> Inr \<lparr> authAllow = JBool False, authDecision = JStr (errorMessage e),
                      authUid = None, authClaims = [] \<rparr>
      | Inr d \<Rightarrow> Inr \<lparr> authAllow = JBool (member d ''allow'' = JBool True), authDecision = d,
                      authUid = Some u, authClaims = claims \<rparr>)"
proof -
  let ?w0 = "w\<lparr>clockReads := Suc (clockReads w)\<rparr>"
  let ?input = "\<lparr> uid = u, tokenClaims = claims, action = act, resource = res,
                  env = \<lparr> now = toISOString h (dateNow h (clockReads w)),
                          ip = coalesce (contextIp ctx) JNull \<rparr> \<rparr>"
  have key: "getCacheKey ?input = getCacheKey \<lparr> uid = u, tokenClaims = claims, action = act,
                   resource = res, env = e0 \<rparr>"
    by (rule getCacheKey_fields)
  have m0: "lookupMisses ?w0 (getCacheKey ?input)"
    using miss unfolding key by (simp add: lookupMisses_def)
  from query_miss [OF m0, of h]
  have q: "fst (query h ?input ?w0) = readDecision (fetchOutcome h (length (fetchCalls w)))" by simp
  obtain r w1 where qr: "query h ?input ?w0 = (r, w1)" by (cases "query h ?input ?w0")
  with q have r: "r = readDecision (fetchOutcome h (length (fetchCalls w)))" by simp
  show ?thesis
  proof (cases r)
    case (Inl e)
    have rd: "readDecision (fetchOutcome h (length (fetchCalls w))) = Inl e" using r Inl by simp
    have qq: "query h ?input ?w0 = (Inl e, w1)" using qr Inl by simp
    from tok v qq rd show ?thesis
      by (simp add: authorize_def authorizeTry_def isAllowed_def readClock_def)
  next
    case (Inr d)
    have rd: "readDecision (fetchOutcome h (length (fetchCalls w))) = Inr d" using r Inr by simp
    have qq: "query h ?input ?w0 = (Inr d, w1)" using qr Inr by simp
    have "truthy d" using rd by (rule readDecision_truthy)
    with tok v qq rd show ?thesis
      by (simp add: authorize_def authorizeTry_def isAllowed_def readClock_def)
  qed
qed

lemma authorizeBatch_item_fails:
  assumes tok: "\<not> noToken idToken" and v: "verifyToken h (the idToken) = Inr (u, claims)"
    and loop: "checkCache h u claims (toISOString h (dateNow h (clockReads w))) (firstContextIp requests)
                 (map (\<lambda>req. \<lparr> itemAction = reqAction req, itemResource = reqResource req \<rparr>) requests)
                 0 [] [] (w\<lparr>clockReads := Suc (clockReads w)\<rparr>) = (hits, misses, w1)"
    and settles: "\<forall>p<length misses. p \<in> set order"
    and p: "p < length misses"
    and fails: "readDecision (fetchOutcome h (length (fetchCalls w) + p)) = Inl e"
  shows "\<exists>rs. fst (authorizeBatch h idToken requests order w) = Some (Inr rs) \<and>
           length rs = length requests \<and> fst (misses ! p) < length requests \<and>
           rs ! fst (misses ! p) =
             \<lparr> authAllow = JBool False,
               authDecision = JObj [(''allow'', JBool False),
                                    (''reason'', JStr (case e of ErrorObj m \<Rightarrow> m
                                                       | NonError x \<Rightarrow> ''OPA query failed''))],
               authUid = Some u, authClaims = claims, authIndex = fst (misses ! p) \<rparr>"
proof -
  let ?items = "map (\<lambda>req. \<lparr> itemAction = reqAction req, itemResource = reqResource req \<rparr>) requests"
  from queryBatch_positions [OF loop settles] obtain rs w' where
    run: "queryBatch h u claims ?items (firstContextIp requests) order w = (Some rs, w')"
    and idx: "map index rs = [0..<length ?items]"
    and ms: "\<forall>p<length misses. fst (misses ! p) < length ?items \<and>
              rs ! fst (misses ! p) =
                itemResult (fst (misses ! p)) (readDecision (fetchOutcome h (length (fetchCalls w) + p)))"
    by blast
  have lrs: "length rs = length requests"
    using idx by (metis length_map length_upt minus_nat.diff_0)
  from ms p fails have at: "fst (misses ! p) < length requests"
      "rs ! fst (misses ! p) = errorResult (fst (misses ! p)) e"
    by (simp_all add: itemResult_def)
  from tok v run have "fst (authorizeBatch h idToken requests order w) =
      Some (Inr (map (\<lambda>result. \<lparr> authAllow = allow result, authDecision = decision result,
                                  authUid = Some u, authClaims = claims,
                                  authIndex = index result \<rparr>) rs))"
    by (simp add: authorizeBatch_def authorizeBatchTry_def)
  with lrs at show ?thesis by (simp add: errorResult_def)
qed

text \<open>
  C2. Neither entry point throws. \<^verbatim>\<open>authorize\<close> always returns a result;
  \<^verbatim>\<open>authorizeBatch\<close> never ends in an exception, and returns one result for each request once
  every call it made has settled. Each failure ends in a denial that carries the reason:
  a token that does not verify gives \<^verbatim>\<open>allow = false\<close> with \<^verbatim>\<open>"Invalid ID token"\<close>, in the
  batch for every request; a rejected call, a status outside 200..299 and a body that does
  not parse all make \<^verbatim>\<open>query\<close> throw, and a body without a result gives the decision
  \<^verbatim>\<open>{ allow: false, reason: 'no decision returned' }\<close>; in \<^verbatim>\<open>authorize\<close> a call that makes
  \<^verbatim>\<open>query\<close> throw gives \<^verbatim>\<open>allow = false\<close> with the error's message, and a decision gives
  \<^verbatim>\<open>allow = (decision.allow === true)\<close>; in \<^verbatim>\<open>authorizeBatch\<close> the item whose call failed gets
  \<^verbatim>\<open>allow = false\<close> and \<^verbatim>\<open>{ allow: false, reason: <message> }\<close>.
\<close>

theorem entry_points_never_throw:
  "(\<exists>r. fst (authorize h idToken act res ctx w) = Inr r) \<and>
   (fst (authorizeBatch h idToken requests order w) = None \<or>
    (\<exists>rs. fst (authorizeBatch h idToken requests order w) = Some (Inr rs))) \<and>
   ((\<forall>p<length requests. p \<in> set order) \<longrightarrow>
      (\<exists>rs. fst (authorizeBatch h idToken requests order w) = Some (Inr rs) \<and>
            length rs = length requests)) \<and>
   (\<not> noToken idToken \<and> verifyIdToken h (the idToken) = Inl e1 \<longrightarrow>
      authorize h idToken act res ctx w =
        (Inr \<lparr> authAllow = JBool False, authDecision = JStr ''Invalid ID token'',
               authUid = None, authClaims = [] \<rparr>, w) \<and>
      authorizeBatch h idToken requests order w =
        (Some (Inr (map (\<lambda>i. \<lparr> authAllow = JBool False, authDecision = JStr ''Invalid ID token'',
                                authUid = None, authClaims = [], authIndex = i \<rparr>)
                        [0..<length requests])), w)) \<and>
   readDecision (Rejected e2) = Inl e2 \<and>
   (\<not> ok resp \<longrightarrow> (\<exists>e'. readDecision (Resolved resp) = Inl e')) \<and>
   (ok resp \<and> bodyJson resp = Inl e3 \<longrightarrow> readDecision (Resolved resp) = Inl e3) \<and>
   (ok resp \<and> bodyJson resp = Inr json \<and> \<not> truthy (member json ''result'') \<longrightarrow>
      (\<exists>e'. readDecision (Resolved resp) = Inl e') \<or> readDecision (Resolved resp) = Inr noDecision) \<and>
   (\<not> noToken idToken \<and> verifyToken h (the idToken) = Inr (u, claims) \<and>
    lookupMisses w (getCacheKey \<lparr> uid = u, tokenClaims = claims, action = act, resource = res,
                                  env = e0 \<rparr>) \<longrightarrow>
      fst (authorize h idToken act res ctx w) =
        (case readDecision (fetchOutcome h (length (fetchCalls w))) of
           Inl e \<Rightarrow> Inr \<lparr> authAllow = JBool False, authDecision = JStr (errorMessage e),
                         authUid = None, authClaims = [] \<rparr>
         | Inr d \<Rightarrow> Inr \<lparr> authAllow = JBool (member d ''allow'' = JBool True), authDecision = d,
                         authUid = Some u, authClaims = claims \<rparr>)) \<and>
   (\<not> noToken idToken \<and> verifyToken h (the idToken) = Inr (u, claims) \<and>
    checkCache h u claims (toISOString h (dateNow h (clockReads w))) (firstContextIp requests)
      (map (\<lambda>req. \<lparr> itemAction = reqAction req, itemResource = reqResource req \<rparr>) requests)
      0 [] [] (w\<lparr>clockReads := Suc (clockReads w)\<rparr>) = (hits, misses, w1) \<and>
    (\<forall>p<length misses. p \<in> set order) \<and> p < length misses \<and>
    readDecision (fetchOutcome h (length (fetchCalls w) + p)) = Inl e4 \<longrightarrow>
      (\<exists>rs. fst (authorizeBatch h idToken requests order w) = Some (Inr rs) \<and>
            length rs = length requests \<and> fst (misses ! p) < length requests \<and>
            rs ! fst (misses ! p) =
              \<lparr> authAllow = JBool False,
                authDecision = JObj [(''allow'', JBool False),
                                     (''reason'', JStr (case e4 of ErrorObj m \<Rightarrow> m
                                                        | NonError x \<Rightarrow> ''OPA query failed''))],
                authUid = Some u, authClaims = claims, authIndex = fst (misses ! p) \<rparr>))"
  (is "?A \<and> ?B \<and> ?C \<and> ?D \<and> ?E \<and> ?F \<and> ?G \<and> ?H \<and> ?I \<and> ?J")
proof -
  have a: ?A by (rule authorize_total)
  have b: ?B by (rule authorizeBatch_no_throw)
  have c: ?C using authorizeBatch_returns by blast
  have d: ?D using authorize_verify_fails by blast
  have e: ?E by (rule readDecision_failures(1))
  have f: ?F using readDecision_failures(2) by blast
  have g: ?G using readDecision_failures(3) by blast
  have h: ?H using readDecision_failures(4) by blast
  have i: ?I using authorize_call_outcome by blast
  have j: ?J using authorizeBatch_item_fails by blast
  from a b c d e f g h i j show ?thesis by (intro conjI)
qed

lemma run_hostFail0:
  "verifyToken (hostFail 0) ''tok'' = Inr (''u2'', claimsU2) \<and>
   readDecision (fetchOutcome (hostFail 0) (length (fetchCalls runtime0))) = Inl (ErrorObj ''fetch failed'') \<and>
   verifyIdToken hostA ''tok'' = Inl (ErrorObj ''auth/argument-error'')"
  by code_simp

theorem entry_points_never_throw_witness:
  "fst (authorize hostA (Some ''tok'') ''read_post'' [(''type'', JStr ''post'')] None runtime0) =
     Inr \<lparr> authAllow = JBool False, authDecision = JStr ''Invalid ID token'',
           authUid = None, authClaims = [] \<rparr> \<and>
   fst (authorize (hostFail 0) (Some ''tok'') ''read_post'' [(''type'', JStr ''post'')] None runtime0) =
     Inr \<lparr> authAllow = JBool False, authDecision = JStr ''fetch failed'',
           authUid = None, authClaims = [] \<rparr> \<and>
   (\<exists>rs. fst (authorizeBatch (hostFail 0) (Some ''tok'') requestsABC [2, 1, 0] runtime0) = Some (Inr rs) \<and>
         length rs = 3)"
proof -
  have tok: "\<not> noToken (Some ''tok'')" "the (Some ''tok'') = ''tok''" by (simp_all add: noToken_def)
  have miss: "lookupMisses runtime0 k" for k
    by (simp add: lookupMisses_def runtime0_def newOpaService_def)
  have settles: "\<forall>p<length requestsABC. p \<in> set [2, 1, 0]"
    by (auto simp: requestsABC_def less_Suc_eq numeral_3_eq_3)
  have three: "length requestsABC = 3" by (simp add: requestsABC_def)
  have v: "fst (authorize hostA (Some ''tok'') ''read_post'' [(''type'', JStr ''post'')] None runtime0) =
     Inr \<lparr> authAllow = JBool False, authDecision = JStr ''Invalid ID token'',
           authUid = None, authClaims = [] \<rparr>"
    using entry_points_never_throw [where h = hostA and idToken = "Some ''tok''" and act = "''read_post''"
        and res = "[(''type'', JStr ''post'')]" and ctx = None and w = runtime0
        and ?e1.0 = "ErrorObj ''auth/argument-error''" and requests = "[]" and order = "[]"
        and ?e2.0 = "ErrorObj []" and resp = "\<lparr> status = 500, bodyText = Inr [], bodyJson = Inr JNull \<rparr>"
        and ?e3.0 = "ErrorObj []" and json = JNull and u = "[]" and claims = "[]"
        and ?e0.0 = "\<lparr> now = [], ip = JNull \<rparr>" and hits = "[]" and misses = "[]" and ?w1.0 = runtime0
        and p = 0 and ?e4.0 = "ErrorObj []"]
      tok run_hostFail0
    by simp
  have f: "fst (authorize (hostFail 0) (Some ''tok'') ''read_post'' [(''type'', JStr ''post'')] None runtime0) =
     Inr \<lparr> authAllow = JBool False, authDecision = JStr ''fetch failed'',
           authUid = None, authClaims = [] \<rparr> \<and>
     (\<exists>rs. fst (authorizeBatch (hostFail 0) (Some ''tok'') requestsABC [2, 1, 0] runtime0) = Some (Inr rs) \<and>
         length rs = length requestsABC)"
    using entry_points_never_throw [where h = "hostFail 0" and idToken = "Some ''tok''" and act = "''read_post''"
        and res = "[(''type'', JStr ''post'')]" and ctx = None and w = runtime0
        and ?e1.0 = "ErrorObj []" and requests = requestsABC and order = "[2, 1, 0]"
        and ?e2.0 = "ErrorObj []" and resp = "\<lparr> status = 500, bodyText = Inr [], bodyJson = Inr JNull \<rparr>"
        and ?e3.0 = "ErrorObj []" and json = JNull and u = "''u2''" and claims = claimsU2
        and ?e0.0 = "\<lparr> now = [], ip = JNull \<rparr>" and hits = "[]" and misses = "[]" and ?w1.0 = runtime0
        and p = 0 and ?e4.0 = "ErrorObj []"]
      tok run_hostFail0 miss settles
    by (simp add: errorMessage_def)
  from v f three show ?thesis by simp
qed


section \<open>The printed form of a JSON value determines the value\<close>

























lemma delimited_simps [simp]:
  "delimited (CHR '','' # r)" "delimited (CHR '']'' # r)" "delimited (CHR ''}'' # r)" "delimited []"
  by (simp_all add: delimited_def)







end
